theory Spec2Isabelle
  imports Complex_Main
begin

unbundle bit_operations_syntax

section \<open>Byte strings\<close>

text \<open>
  The server handles \<^verbatim>\<open>bytes\<close> and \<^verbatim>\<open>bytearray\<close> values. A byte is a \<^typ>\<open>char\<close>
  (256 values), a byte string a \<^typ>\<open>string\<close>.
\<close>

type_synonym bytes = string

datatype error =
    IndexError | KeyError | ValueError | RuntimeError | AttributeError
  | OSError nat
  | PlainException

text \<open>
  \<open>OSError n\<close> is an \<^verbatim>\<open>OSError\<close> (or one of its subclasses) with \<^verbatim>\<open>errno\<close> \<open>n\<close>;
  \<open>PlainException\<close> is the message-less \<^verbatim>\<open>Exception()\<close> that \<^verbatim>\<open>open\<close> creates.
\<close>

definition EBUSY :: nat where
  "EBUSY = 16"

fun is_OSError :: "error \<Rightarrow> bool" where
  "is_OSError (OSError n) = True"
| "is_OSError e = False"

text \<open>
  \<^verbatim>\<open>buf.split(sep)\<close> for a non-empty separator: scan from the left, cut at every
  occurrence of \<open>sep\<close> and continue behind it. \<open>cur\<close> is the piece collected so far.
\<close>

function split_from :: "bytes \<Rightarrow> bytes \<Rightarrow> bytes \<Rightarrow> bytes list" where
  "split_from sep cur [] = [cur]"
| "split_from sep cur (x # xs) =
     (if sep \<noteq> [] \<and> take (length sep) (x # xs) = sep
      then cur # split_from sep [] (drop (length sep) (x # xs))
      else split_from sep (cur @ [x]) xs)"
  by pat_completeness auto
termination
  by (relation "measure (\<lambda>(sep, cur, xs). length xs)") auto

text \<open>\<^verbatim>\<open>buf.split(sep)\<close>: an empty separator raises \<^verbatim>\<open>ValueError\<close>.\<close>

definition bytes_split :: "bytes \<Rightarrow> bytes \<Rightarrow> error + bytes list" where
  "bytes_split buf sep = (if sep = [] then Inl ValueError else Inr (split_from sep [] buf))"

text \<open>
  \<^verbatim>\<open>buf.replace(old, new)\<close>: every occurrence of \<open>old\<close>, found from the left without
  overlap, becomes \<open>new\<close>. With an empty \<open>old\<close> Python puts \<open>new\<close> before every byte
  and at the end.
\<close>

function replace_from :: "bytes \<Rightarrow> bytes \<Rightarrow> bytes \<Rightarrow> bytes" where
  "replace_from old new [] = []"
| "replace_from old new (x # xs) =
     (if old \<noteq> [] \<and> take (length old) (x # xs) = old
      then new @ replace_from old new (drop (length old) (x # xs))
      else x # replace_from old new xs)"
  by pat_completeness auto
termination
  by (relation "measure (\<lambda>(old, new, xs). length xs)") auto

definition bytes_replace :: "bytes \<Rightarrow> bytes \<Rightarrow> bytes \<Rightarrow> bytes" where
  "bytes_replace buf old new =
     (if old = [] then new @ concat (map (\<lambda>x. x # new) buf) else replace_from old new buf)"

text \<open>
  \<open>join sep ps\<close> is \<^verbatim>\<open>sep.join(ps)\<close>, and \<open>occurs_at sep i xs\<close> says that
  \<open>sep\<close> stands in \<open>xs\<close> at index \<open>i\<close>. Both serve to say what a split is.
\<close>

fun join :: "bytes \<Rightarrow> bytes list \<Rightarrow> bytes" where
  "join sep [] = []"
| "join sep [p] = p"
| "join sep (p # q # ps) = p @ sep @ join sep (q # ps)"

definition occurs_at :: "bytes \<Rightarrow> nat \<Rightarrow> bytes \<Rightarrow> bool" where
  "occurs_at sep i xs \<longleftrightarrow> take (length sep) (drop i xs) = sep"

section \<open>The server object\<close>

text \<open>
  Calls into the operating system and into the serial library are answered by the
  environment: every handler takes the results of the calls it makes as an argument.
  \<open>Returns v\<close> is a normal return, \<open>Raises e\<close> an exception. Socket \<^verbatim>\<open>shutdown\<close> and
  \<^verbatim>\<open>close\<close> raise nothing but \<^verbatim>\<open>OSError\<close>; their result is \<open>None\<close> for a normal
  return and \<open>Some errno\<close> for the error.
\<close>

datatype 'a outcome = Returns 'a | Raises error

type_synonym os_result = "nat option"

text \<open>
  Objects registered with the selector: a socket (named by a number; Python compares
  sockets by identity) or the serial device. The data attached to a registration is
  \<^verbatim>\<open>None\<close> (listening socket), a \<^verbatim>\<open>ClientBuffers\<close> object (named by a reference) or
  the list \<^verbatim>\<open>ser_queue\<close>.
\<close>

datatype fileobj = SockObj nat | SerialObj

datatype keydata = NoData | ClientData nat | QueueData

definition EVENT_READ :: nat where
  "EVENT_READ = 1"

definition EVENT_WRITE :: nat where
  "EVENT_WRITE = 2"

type_synonym selector = "fileobj \<rightharpoonup> nat \<times> keydata"

record ClientBuffers =
  cb_sock :: nat
  in_buf :: bytes
  out_buf :: bytes

record serial_port =
  is_open :: bool
  ser_timeout :: real
  write_timeout :: "real option"

text \<open>
  The fields of \<^verbatim>\<open>SerialServer\<close> that the lifecycle and the event handlers use.
  \<open>clients\<close> is the Python set of connected sockets, kept as a list that gives its
  iteration order (Python leaves that order open). \<open>bufs\<close> is the store of
  \<^verbatim>\<open>ClientBuffers\<close> objects and \<open>next_obj\<close> the next unused object name.

  The last eight fields are not fields of the class. They record what the server did:
  the bytes written to the device, the (command, buffers) pairs for which a device
  transaction was started, the pairs appended to \<^verbatim>\<open>ser_queue\<close>, the bytes sent on
  each socket, the sockets on which \<^verbatim>\<open>shutdown\<close> and \<^verbatim>\<open>close\<close> returned, what
  the acquisition loop of \<^verbatim>\<open>open\<close> did (\<open>Attempt\<close> is a call of \<^verbatim>\<open>Serial(...)\<close>,
  \<open>Sleep\<close> a call of \<^verbatim>\<open>sleep(0.1)\<close>), and the translated replies that
  \<^verbatim>\<open>process_serial\<close> appended to outbound buffers, each with the buffers object it
  went to.
\<close>

datatype open_act = Attempt | Sleep

record server =
  opened :: bool
  serving :: bool
  shutdown_request :: bool
  eol_sock :: bytes
  eol_ser :: bytes
  serial :: "serial_port option"
  timeout :: real
  sock :: "nat option"
  sel :: "selector option"
  ser_queue :: "(bytes \<times> nat) list"
  clients :: "nat list"
  bufs :: "nat \<Rightarrow> ClientBuffers"
  next_obj :: nat
  dev_rx :: bytes
  txns :: "(bytes \<times> nat) list"
  enq :: "(bytes \<times> nat) list"
  sock_tx :: "nat \<Rightarrow> bytes"
  shut_socks :: "nat set"
  closed_socks :: "nat set"
  acq_log :: "open_act list"
  replies :: "(nat \<times> bytes) list"

subsection \<open>Selector operations\<close>

text \<open>
  \<^verbatim>\<open>self.sel.register\<close>, \<^verbatim>\<open>unregister\<close> and \<^verbatim>\<open>modify\<close>. With \<^verbatim>\<open>self.sel\<close> being
  \<^verbatim>\<open>None\<close> the attribute lookup raises \<^verbatim>\<open>AttributeError\<close>; registering a registered
  object, or unregistering or modifying an unregistered one, raises \<^verbatim>\<open>KeyError\<close>.
\<close>

definition sel_register :: "fileobj \<Rightarrow> nat \<Rightarrow> keydata \<Rightarrow> server \<Rightarrow> error + server" where
  "sel_register f ev d s =
     (case sel s of
        None \<Rightarrow> Inl AttributeError
      | Some m \<Rightarrow>
          (if m f \<noteq> None then Inl KeyError else Inr (s\<lparr>sel := Some (m(f \<mapsto> (ev, d)))\<rparr>)))"

definition sel_unregister :: "fileobj \<Rightarrow> server \<Rightarrow> error + server" where
  "sel_unregister f s =
     (case sel s of
        None \<Rightarrow> Inl AttributeError
      | Some m \<Rightarrow>
          (if m f = None then Inl KeyError else Inr (s\<lparr>sel := Some (m(f := None))\<rparr>)))"

definition sel_modify :: "fileobj \<Rightarrow> nat \<Rightarrow> keydata \<Rightarrow> server \<Rightarrow> error + server" where
  "sel_modify f ev d s =
     (case sel s of
        None \<Rightarrow> Inl AttributeError
      | Some m \<Rightarrow>
          (if m f = None then Inl KeyError else Inr (s\<lparr>sel := Some (m(f \<mapsto> (ev, d)))\<rparr>)))"

subsection \<open>process\_socket\<close>

record sock_io =
  accept_r :: "unit outcome"
  recv_r :: "bytes outcome"
  send_r :: "nat outcome"
  shutdown_r :: os_result
  close_r :: os_result

text \<open>\<^verbatim>\<open>for cmd in chunks: self.ser_queue.append((cmd, data))\<close>\<close>

definition submit :: "bytes list \<Rightarrow> nat \<Rightarrow> server \<Rightarrow> server" where
  "submit chunks r s =
     s\<lparr>ser_queue := ser_queue s @ map (\<lambda>cmd. (cmd, r)) chunks,
       enq := enq s @ map (\<lambda>cmd. (cmd, r)) chunks\<rparr>"

text \<open>The listening socket is readable: accept a client and register it for reading.\<close>

definition accept_client :: "sock_io \<Rightarrow> server \<Rightarrow> error option \<times> server" where
  "accept_client io s =
     (case accept_r io of
        Raises e \<Rightarrow> (Some e, s)
      | Returns _ \<Rightarrow>
          (let n = next_obj s;
               s1 = s\<lparr>next_obj := Suc n,
                      clients := (if n \<in> set (clients s) then clients s else clients s @ [n])\<rparr>
           in case sel_register (SockObj n) EVENT_READ (ClientData n)
                     (s1\<lparr>bufs := (bufs s1)(n := \<lparr>cb_sock = n, in_buf = [], out_buf = []\<rparr>)\<rparr>) of
                Inl e \<Rightarrow> (Some e, s1)
              | Inr s2 \<Rightarrow> (None, s2)))"

text \<open>
  A client socket is readable. \<open>r\<close> names the \<^verbatim>\<open>ClientBuffers\<close> object of the key.
  Received bytes are appended to \<^verbatim>\<open>in_buf\<close> in place, the buffer is split, the last
  piece goes back into \<^verbatim>\<open>in_buf\<close> and the others are submitted. An empty read closes
  the connection.
\<close>

definition client_read :: "nat \<Rightarrow> nat \<Rightarrow> sock_io \<Rightarrow> server \<Rightarrow> error option \<times> server" where
  "client_read sk r io s =
     (case recv_r io of
        Raises e \<Rightarrow> (Some e, s)
      | Returns received \<Rightarrow>
          (if received \<noteq> [] then
             (let buf = in_buf (bufs s r) @ received;
                  s1 = s\<lparr>bufs := (bufs s)(r := (bufs s r)\<lparr>in_buf := buf\<rparr>)\<rparr>
              in case bytes_split buf (eol_sock s1) of
                   Inl e \<Rightarrow> (Some e, s1)
                 | Inr chunks \<Rightarrow>
                     (let s2 = s1\<lparr>bufs := (bufs s1)(r := (bufs s1 r)\<lparr>in_buf := last chunks\<rparr>)\<rparr>;
                          cmds = butlast chunks
                      in if cmds \<noteq> [] then
                           (if ser_queue s2 = [] then
                              (case serial s2 of
                                 None \<Rightarrow> (Some ValueError, s2)
                               | Some _ \<Rightarrow>
                                   (case sel_register SerialObj EVENT_WRITE QueueData s2 of
                                      Inl e \<Rightarrow> (Some e, s2)
                                    | Inr s3 \<Rightarrow> (None, submit cmds r s3)))
                            else (None, submit cmds r s2))
                         else (None, s2)))
           else
             (case sel_unregister (SockObj sk) s of
                Inl e \<Rightarrow> (Some e, s)
              | Inr s1 \<Rightarrow>
                  (if sk \<notin> set (clients s1) then (Some KeyError, s1)
                   else
                     (let s2 = s1\<lparr>clients := removeAll sk (clients s1)\<rparr>
                      in case shutdown_r io of
                           Some n \<Rightarrow> (Some (OSError n), s2)
                         | None \<Rightarrow>
                             (let s3 = s2\<lparr>shut_socks := insert sk (shut_socks s2)\<rparr>
                              in case close_r io of
                                   Some n \<Rightarrow> (Some (OSError n), s3)
                                 | None \<Rightarrow>
                                     (None, s3\<lparr>closed_socks := insert sk (closed_socks s3)\<rparr>)))))))"

text \<open>
  A client socket is writable: send what the transport takes, keep the rest, and go
  back to read-only interest once the buffer is empty.
\<close>

definition client_write :: "nat \<Rightarrow> nat \<Rightarrow> sock_io \<Rightarrow> server \<Rightarrow> error option \<times> server" where
  "client_write sk r io s =
     (case send_r io of
        Raises e \<Rightarrow> (Some e, s)
      | Returns sent \<Rightarrow>
          (let ob = out_buf (bufs s r);
               s1 = s\<lparr>bufs := (bufs s)(r := (bufs s r)\<lparr>out_buf := drop sent ob\<rparr>),
                      sock_tx := (sock_tx s)(sk := sock_tx s sk @ take sent ob)\<rparr>
           in if drop sent ob = [] then
                (case sel_modify (SockObj sk) EVENT_READ (ClientData r) s1 of
                   Inl e \<Rightarrow> (Some e, s1)
                 | Inr s2 \<Rightarrow> (None, s2))
              else (None, s1)))"

text \<open>
  \<^verbatim>\<open>process_socket(key, mask)\<close> with \<^verbatim>\<open>key.fileobj\<close> the socket \<open>sk\<close> and
  \<^verbatim>\<open>key.data\<close> either \<^verbatim>\<open>None\<close> or the \<^verbatim>\<open>ClientBuffers\<close> object \<open>r\<close>. The result
  is the exception that escaped, if any, and the server as the handler left it.
\<close>

definition process_socket ::
  "nat \<Rightarrow> nat option \<Rightarrow> nat \<Rightarrow> sock_io \<Rightarrow> server \<Rightarrow> error option \<times> server" where
  "process_socket sk data msk io s =
     (case data of
        None \<Rightarrow> (if msk AND EVENT_READ \<noteq> 0 then accept_client io s else (None, s))
      | Some r \<Rightarrow>
          (if msk AND EVENT_READ \<noteq> 0 then client_read sk r io s
           else if msk AND EVENT_WRITE \<noteq> 0 then client_write sk r io s
           else (None, s)))"

subsection \<open>process\_serial\<close>

text \<open>
  The results of the device calls of one transaction: of the successive
  \<^verbatim>\<open>ser.write\<close> calls, of \<^verbatim>\<open>ser.flush\<close> and of \<^verbatim>\<open>ser.read_until\<close>.
\<close>

record ser_io =
  write_r :: "nat outcome list"
  flush_r :: "unit outcome"
  read_r :: "bytes outcome"

text \<open>
  \<^verbatim>\<open>while query: written = ser.write(query); query = query[written:]\<close>.
  The loop ends when the query is empty or a write raises; it runs on as long as the
  device takes nothing. The list holds the results of the write calls, one per
  iteration; \<open>None\<close> means that the loop is still running after the last of them.
  The result is the exception, if any, and the bytes that the device took.
\<close>

fun write_all :: "nat outcome list \<Rightarrow> bytes \<Rightarrow> bytes \<Rightarrow> (error option \<times> bytes) option" where
  "write_all ws [] acc = Some (None, acc)"
| "write_all [] (q # qs) acc = None"
| "write_all (Raises e # ws) (q # qs) acc = Some (Some e, acc)"
| "write_all (Returns n # ws) (q # qs) acc =
     write_all ws (drop n (q # qs)) (acc @ take n (q # qs))"

text \<open>What follows the write loop: flush, read the reply, translate, hand it over.\<close>

definition deliver :: "nat \<Rightarrow> ser_io \<Rightarrow> server \<Rightarrow> error option \<times> server" where
  "deliver r io s =
     (case flush_r io of
        Raises e \<Rightarrow> (Some e, s)
      | Returns _ \<Rightarrow>
          (case read_r io of
             Raises e \<Rightarrow> (Some e, s)
           | Returns raw \<Rightarrow>
               (let reply = bytes_replace raw (eol_ser s) (eol_sock s);
                    cb = bufs s r;
                    extend = (\<lambda>t. t\<lparr>bufs := (bufs t)(r := (bufs t r)\<lparr>out_buf := out_buf (bufs t r) @ reply\<rparr>),
                                    replies := replies t @ [(r, reply)]\<rparr>)
                in if out_buf cb = [] \<and> cb_sock cb \<in> set (clients s) then
                     (case sel_modify (SockObj (cb_sock cb)) (EVENT_READ OR EVENT_WRITE)
                             (ClientData r) s of
                        Inl e \<Rightarrow> (Some e, s)
                      | Inr s1 \<Rightarrow> (None, extend s1))
                   else (None, extend s))))"

text \<open>
  \<^verbatim>\<open>process_serial(key, mask)\<close> with \<^verbatim>\<open>key.fileobj\<close> the serial device and
  \<^verbatim>\<open>key.data\<close> the list \<^verbatim>\<open>ser_queue\<close>. \<open>None\<close>: the write loop has not ended.
\<close>

definition process_serial :: "nat \<Rightarrow> ser_io \<Rightarrow> server \<Rightarrow> (error option \<times> server) option" where
  "process_serial msk io s =
     (if msk AND EVENT_WRITE \<noteq> 0 then
        (case ser_queue s of
           [] \<Rightarrow> Some (Some IndexError, s)
         | (cmd, r) # rest \<Rightarrow>
             (let s1 = s\<lparr>ser_queue := rest\<rparr>
              in case (if rest = [] then sel_unregister SerialObj s1 else Inr s1) of
                   Inl e \<Rightarrow> Some (Some e, s1)
                 | Inr s2 \<Rightarrow>
                     (let s3 = s2\<lparr>txns := txns s2 @ [(cmd, r)]\<rparr>
                      in case write_all (write_r io) (cmd @ eol_ser s3) [] of
                           None \<Rightarrow> None
                         | Some (Some e, written) \<Rightarrow>
                             Some (Some e, s3\<lparr>dev_rx := dev_rx s3 @ written\<rparr>)
                         | Some (None, written) \<Rightarrow>
                             Some (deliver r io (s3\<lparr>dev_rx := dev_rx s3 @ written\<rparr>)))))
      else Some (None, s))"

section \<open>Lifecycle\<close>

subsection \<open>The timeout property\<close>

text \<open>
  \<^verbatim>\<open>timeout.setter\<close>: a negative value raises \<^verbatim>\<open>ValueError\<close>; otherwise the value
  is stored, and written to the device handle if there is one.
\<close>

definition set_timeout :: "real \<Rightarrow> server \<Rightarrow> error option \<times> server" where
  "set_timeout val s =
     (if val < 0 then (Some ValueError, s)
      else (None, s\<lparr>serial := map_option (\<lambda>p. p\<lparr>ser_timeout := val, write_timeout := Some val\<rparr>)
                               (serial s),
                    timeout := val\<rparr>))"

subsection \<open>open\<close>

text \<open>
  Clock readings and timeouts are Python floats; a float is taken as the real number
  it stands for. Comparing two floats is exact. Adding two floats gives the exact sum
  rounded to a float, and which float that is, is left to the environment: \<open>rnd\<close> is
  its rounding. A float plus 0 is that float.
\<close>

definition float_add :: "(real \<Rightarrow> real) \<Rightarrow> real \<Rightarrow> real \<Rightarrow> real" where
  "float_add rnd a b = (if b = 0 then a else rnd (a + b))"

text \<open>
  What the environment answers during \<^verbatim>\<open>open\<close>: the successive readings of
  \<^verbatim>\<open>time()\<close>, the rounding of float sums, the successive results of
  \<^verbatim>\<open>Serial(**self.ser_kwargs)\<close> and the result of \<^verbatim>\<open>create_server\<close>.
\<close>

record open_io =
  clock :: "real list"
  round_r :: "real \<Rightarrow> real"
  attempts :: "serial_port outcome list"
  create_r :: "unit outcome"

text \<open>
  The acquisition loop
  \<^verbatim>\<open>while time() < (time_i + self.timeout): try: ... break; except OSError as e: ...\<close>.
  Every test of the loop condition takes one clock reading, every run of the body one
  result of \<^verbatim>\<open>Serial(...)\<close>; \<open>deadline\<close> is the float \<^verbatim>\<open>time_i + self.timeout\<close>.
  \<open>None\<close>: the readings or the results have run out while the
  loop is still going. Otherwise the result is either an exception that escaped the
  loop (\<open>Inl\<close>) or the values of \<^verbatim>\<open>self.serial\<close> and \<^verbatim>\<open>exc\<close> at the end of the loop
  (\<open>Inr\<close>), together with what the loop did.
\<close>

fun acquire ::
  "real \<Rightarrow> real list \<Rightarrow> serial_port outcome list \<Rightarrow> error \<Rightarrow> open_act list \<Rightarrow>
     ((error + serial_port option \<times> error) \<times> open_act list) option" where
  "acquire deadline [] atts exc acts = None"
| "acquire deadline (t # ts) atts exc acts =
     (if t < deadline then
        (case atts of
           [] \<Rightarrow> None
         | Returns p # rest \<Rightarrow> Some (Inr (Some p, exc), acts @ [Attempt])
         | Raises e # rest \<Rightarrow>
             (if is_OSError e then
                acquire deadline ts rest e
                  (acts @ [Attempt] @ (if e = OSError EBUSY then [Sleep] else []))
              else Some (Inl e, acts @ [Attempt])))
      else Some (Inr (None, exc), acts))"

text \<open>
  \<^verbatim>\<open>open()\<close>. Closing a stale selector and a stale device handle is taken to return.
  The result is the exception raised, if any, and the server; \<open>None\<close> if the
  acquisition loop has not ended.
\<close>

definition open_srv :: "open_io \<Rightarrow> server \<Rightarrow> (error option \<times> server) option" where
  "open_srv io s =
     (if opened s then Some (None, s)
      else
        (let s1 = s\<lparr>sel := Some Map.empty, serial := None, ser_queue := []\<rparr>
         in case clock io of
              [] \<Rightarrow> None
            | time_i # ts \<Rightarrow>
                (case acquire (float_add (round_r io) time_i (timeout s1)) ts (attempts io)
                        PlainException [] of
                   None \<Rightarrow> None
                 | Some (Inl e, acts) \<Rightarrow> Some (Some e, s1\<lparr>acq_log := acq_log s1 @ acts\<rparr>)
                 | Some (Inr (p, exc), acts) \<Rightarrow>
                     (let s2 = s1\<lparr>serial := p, acq_log := acq_log s1 @ acts\<rparr>
                      in if \<not> (case p of None \<Rightarrow> False | Some h \<Rightarrow> is_open h)
                         then Some (Some exc, s2)
                         else
                           (case create_r io of
                              Raises e \<Rightarrow> Some (Some e, s2)
                            | Returns _ \<Rightarrow>
                                (let n = next_obj s2;
                                     s3 = s2\<lparr>sock := Some n, next_obj := Suc n\<rparr>
                                 in case sel_register (SockObj n) EVENT_READ NoData s3 of
                                      Inl e \<Rightarrow> Some (Some e, s3)
                                    | Inr s4 \<Rightarrow> Some (None, s4\<lparr>opened := True\<rparr>)))))))"

subsection \<open>close and stop\<close>

record close_io =
  ser_close_r :: os_result
  lshutdown_r :: os_result
  lclose_r :: os_result
  cclose_r :: "nat \<Rightarrow> os_result"

text \<open>
  \<^verbatim>\<open>for client in self.clients: client.close()\<close> inside \<^verbatim>\<open>suppress(OSError)\<close>:
  \<open>False\<close> if a close raised and the loop was left.
\<close>

fun close_clients :: "(nat \<Rightarrow> os_result) \<Rightarrow> nat list \<Rightarrow> server \<Rightarrow> bool \<times> server" where
  "close_clients f [] s = (True, s)"
| "close_clients f (c # cs) s =
     (case f c of
        Some n \<Rightarrow> (False, s)
      | None \<Rightarrow> close_clients f cs (s\<lparr>closed_socks := insert c (closed_socks s)\<rparr>))"

text \<open>
  The body of \<^verbatim>\<open>with suppress(OSError):\<close> in \<^verbatim>\<open>close\<close>. An \<^verbatim>\<open>OSError\<close> ends the
  block silently; a call on \<^verbatim>\<open>None\<close> raises \<^verbatim>\<open>AttributeError\<close>, which is not
  suppressed.
\<close>

definition teardown :: "close_io \<Rightarrow> server \<Rightarrow> error option \<times> server" where
  "teardown io s =
     (case sel s of
        None \<Rightarrow> (Some AttributeError, s)
      | Some _ \<Rightarrow>
          (let s1 = s\<lparr>sel := None\<rparr>
           in case serial s1 of
                None \<Rightarrow> (Some AttributeError, s1)
              | Some _ \<Rightarrow>
                  (case ser_close_r io of
                     Some n \<Rightarrow> (None, s1)
                   | None \<Rightarrow>
                       (let s2 = s1\<lparr>serial := None, ser_queue := []\<rparr>
                        in case sock s2 of
                             None \<Rightarrow> (Some AttributeError, s2)
                           | Some l \<Rightarrow>
                               (case lshutdown_r io of
                                  Some n \<Rightarrow> (None, s2)
                                | None \<Rightarrow>
                                    (let s3 = s2\<lparr>shut_socks := insert l (shut_socks s2)\<rparr>
                                     in case lclose_r io of
                                          Some n \<Rightarrow> (None, s3)
                                        | None \<Rightarrow>
                                            (let s4 = s3\<lparr>closed_socks := insert l (closed_socks s3),
                                                          sock := None\<rparr>
                                             in case close_clients (cclose_r io) (clients s4) s4 of
                                                  (False, s5) \<Rightarrow> (None, s5)
                                                | (True, s5) \<Rightarrow> (None, s5\<lparr>clients := []\<rparr>))))))))"

definition close :: "close_io \<Rightarrow> server \<Rightarrow> error option \<times> server" where
  "close io s =
     (if serving s then (Some RuntimeError, s)
      else if opened s then
        (case teardown io s of
           (Some e, s1) \<Rightarrow> (Some e, s1)
         | (None, s1) \<Rightarrow> (None, s1\<lparr>opened := False\<rparr>))
      else (None, s))"

definition stop :: "server \<Rightarrow> server" where
  "stop s = (if serving s then s\<lparr>shutdown_request := True\<rparr> else s)"

section \<open>serve\_forever\<close>

text \<open>
  What happens while the loop runs, in the order in which it happens: a socket or the
  serial device is ready (with the ready events and the results of the calls the handler
  will make), or a signal arrives and its handler calls \<^verbatim>\<open>stop()\<close>. One list of inputs
  is what falls into one call of \<^verbatim>\<open>select\<close> and the processing of its result.
\<close>

datatype input = SockReady nat nat sock_io | SerReady nat ser_io | Stop

fun input_obj :: "input \<Rightarrow> fileobj option" where
  "input_obj (SockReady n rdy io) = Some (SockObj n)"
| "input_obj (SerReady rdy io) = Some SerialObj"
| "input_obj Stop = None"

fun input_ready :: "input \<Rightarrow> nat" where
  "input_ready (SockReady n rdy io) = rdy"
| "input_ready (SerReady rdy io) = rdy"
| "input_ready Stop = 0"

text \<open>
  \<^verbatim>\<open>select\<close> reports an object if it was registered when \<^verbatim>\<open>select\<close> was called (\<open>m\<close>
  is the registration map of that moment), if it is ready for an event it is registered
  for, and once only (\<open>seen\<close> holds the objects already reported). The reported mask is
  the ready events among the registered ones.
\<close>

definition reported :: "selector \<Rightarrow> fileobj list \<Rightarrow> input \<Rightarrow> (fileobj \<times> nat \<times> keydata) option" where
  "reported m seen i =
     (case input_obj i of
        None \<Rightarrow> None
      | Some f \<Rightarrow>
          (if f \<in> set seen then None
           else
             (case m f of
                None \<Rightarrow> None
              | Some (ev, d) \<Rightarrow>
                  (if input_ready i AND ev = 0 then None else Some (f, input_ready i AND ev, d)))))"

text \<open>
  The dispatch of one reported event. Sockets are registered with \<^verbatim>\<open>None\<close> or a
  \<^verbatim>\<open>ClientBuffers\<close> object only and the device with \<^verbatim>\<open>ser_queue\<close> only; for any
  other pairing the handler would fail on a missing attribute.
\<close>

fun dispatch :: "input \<Rightarrow> nat \<Rightarrow> keydata \<Rightarrow> server \<Rightarrow> (error option \<times> server) option" where
  "dispatch (SockReady n rdy io) msk NoData s = Some (process_socket n None msk io s)"
| "dispatch (SockReady n rdy io) msk (ClientData r) s = Some (process_socket n (Some r) msk io s)"
| "dispatch (SockReady n rdy io) msk QueueData s = Some (Some AttributeError, s)"
| "dispatch (SerReady rdy io) msk QueueData s = process_serial msk io s"
| "dispatch (SerReady rdy io) msk d s = Some (Some AttributeError, s)"
| "dispatch Stop msk d s = Some (None, s)"

text \<open>
  \<^verbatim>\<open>for key, mask in events: if self._shutdown_request: break ...\<close>, with the
  signals that arrive in between.
\<close>

fun run_batch ::
  "selector \<Rightarrow> fileobj list \<Rightarrow> input list \<Rightarrow> server \<Rightarrow> (error option \<times> server) option" where
  "run_batch m seen [] s = Some (None, s)"
| "run_batch m seen (Stop # is) s = run_batch m seen is (stop s)"
| "run_batch m seen (i # is) s =
     (case reported m seen i of
        None \<Rightarrow> run_batch m seen is s
      | Some (f, msk, d) \<Rightarrow>
          (if shutdown_request s then Some (None, s)
           else
             (case dispatch i msk d s of
                None \<Rightarrow> None
              | Some (Some e, s1) \<Rightarrow> Some (Some e, s1)
              | Some (None, s1) \<Rightarrow> run_batch m (f # seen) is s1)))"

text \<open>
  \<^verbatim>\<open>while not self._shutdown_request: events = self.sel.select(...); for ...\<close>.
  \<open>None\<close>: the inputs have run out and no shutdown was requested, so the loop is still
  waiting (or a write loop inside a handler has not ended).
\<close>

fun serve_loop :: "input list list \<Rightarrow> server \<Rightarrow> (error option \<times> server) option" where
  "serve_loop [] s = (if shutdown_request s then Some (None, s) else None)"
| "serve_loop (b # bs) s =
     (if shutdown_request s then Some (None, s)
      else
        (case sel s of
           None \<Rightarrow> Some (Some AttributeError, s)
         | Some m \<Rightarrow>
             (case run_batch m [] b s of
                None \<Rightarrow> None
              | Some (Some e, s1) \<Rightarrow> Some (Some e, s1)
              | Some (None, s1) \<Rightarrow> serve_loop bs s1)))"

text \<open>
  The \<^verbatim>\<open>finally\<close> block. Inside \<^verbatim>\<open>suppress(OSError)\<close> every client is shut down and
  closed in turn; the first \<^verbatim>\<open>OSError\<close> ends the block. Then the set is cleared and
  the serving flag reset.
\<close>

fun shutdown_all ::
  "(nat \<Rightarrow> os_result) \<Rightarrow> (nat \<Rightarrow> os_result) \<Rightarrow> nat list \<Rightarrow> server \<Rightarrow> server" where
  "shutdown_all sh cl [] s = s"
| "shutdown_all sh cl (c # cs) s =
     (case sh c of
        Some n \<Rightarrow> s
      | None \<Rightarrow>
          (let s1 = s\<lparr>shut_socks := insert c (shut_socks s)\<rparr>
           in case cl c of
                Some n \<Rightarrow> s1
              | None \<Rightarrow> shutdown_all sh cl cs (s1\<lparr>closed_socks := insert c (closed_socks s1)\<rparr>)))"

definition cleanup :: "(nat \<Rightarrow> os_result) \<Rightarrow> (nat \<Rightarrow> os_result) \<Rightarrow> server \<Rightarrow> server" where
  "cleanup sh cl s = (shutdown_all sh cl (clients s) s)\<lparr>clients := [], serving := False\<rparr>"

record serve_io =
  open_r :: open_io
  batches :: "input list list"
  fin_shutdown_r :: "nat \<Rightarrow> os_result"
  fin_close_r :: "nat \<Rightarrow> os_result"

text \<open>
  \<^verbatim>\<open>serve_forever()\<close>. An exception of \<^verbatim>\<open>open\<close> leaves before the \<^verbatim>\<open>try\<close>; an
  exception in the loop passes through the \<^verbatim>\<open>finally\<close> block and goes on to the caller.
\<close>

definition serve_forever :: "serve_io \<Rightarrow> server \<Rightarrow> (error option \<times> server) option" where
  "serve_forever io s =
     (case (if \<not> opened s then open_srv (open_r io) s else Some (None, s)) of
        None \<Rightarrow> None
      | Some (Some e, s1) \<Rightarrow> Some (Some e, s1)
      | Some (None, s1) \<Rightarrow>
          (case serve_loop (batches io) (s1\<lparr>serving := True\<rparr>) of
             None \<Rightarrow> None
           | Some (r, s2) \<Rightarrow> Some (r, cleanup (fin_shutdown_r io) (fin_close_r io) s2)))"

text \<open>
  The state in which the \<^verbatim>\<open>while\<close> loop of \<^verbatim>\<open>serve_forever\<close> ends, be it by a
  shutdown request or by an exception, before the \<^verbatim>\<open>finally\<close> block runs. \<open>None\<close>
  if \<^verbatim>\<open>open\<close> raises, so that the loop is never entered, or if the loop does not end.
\<close>

definition loop_exit :: "serve_io \<Rightarrow> server \<Rightarrow> server option" where
  "loop_exit io s =
     (case (if \<not> opened s then open_srv (open_r io) s else Some (None, s)) of
        None \<Rightarrow> None
      | Some (Some e, s1) \<Rightarrow> None
      | Some (None, s1) \<Rightarrow> map_option snd (serve_loop (batches io) (s1\<lparr>serving := True\<rparr>)))"

section \<open>Reachable states\<close>

text \<open>
  The states a server passes through between handler calls: the state in which a
  successful \<^verbatim>\<open>open\<close> leaves a closed server, and every state in which a call of
  \<^verbatim>\<open>process_socket\<close> or \<^verbatim>\<open>process_serial\<close> leaves a reachable one, whether the
  call returned or raised.
\<close>

inductive reachable :: "server \<Rightarrow> bool" where
  fresh: "\<not> opened s \<Longrightarrow> open_srv io s = Some (None, s') \<Longrightarrow> reachable s'"
| socket: "reachable s \<Longrightarrow> process_socket sk data msk io s = (res, s') \<Longrightarrow> reachable s'"
| serial: "reachable s \<Longrightarrow> process_serial msk dio s = Some (res, s') \<Longrightarrow> reachable s'"

text \<open>The serial device is registered with the selector for write readiness.\<close>

definition write_armed :: "server \<Rightarrow> bool" where
  "write_armed s =
     (case sel s of
        None \<Rightarrow> False
      | Some m \<Rightarrow> (case m SerialObj of None \<Rightarrow> False | Some (ev, d) \<Rightarrow> ev AND EVENT_WRITE \<noteq> 0))"

text \<open>
  What the handlers keep true of the selector and the queue: the device is registered
  exactly if the queue holds a command, and then for writing, with the queue as data.
\<close>

definition queue_inv :: "server \<Rightarrow> bool" where
  "queue_inv s =
     (case sel s of
        None \<Rightarrow> False
      | Some m \<Rightarrow>
          (case m SerialObj of
             None \<Rightarrow> ser_queue s = []
           | Some (ev, d) \<Rightarrow> ev = EVENT_WRITE \<and> d = QueueData \<and> ser_queue s \<noteq> []))"

text \<open>
  The bytes of the queries for the given commands: \<^verbatim>\<open>cmd + self.eol_ser\<close> for each
  (command, client) pair, one after the other.
\<close>

definition wire :: "bytes \<Rightarrow> (bytes \<times> nat) list \<Rightarrow> bytes" where
  "wire es T = concat (map (\<lambda>c. fst c @ es) T)"

text \<open>
  Between two states of a server: the device transactions started in between are \<open>T\<close>,
  the commands appended to the queue in between are \<open>E\<close>, and the queue of the first
  state followed by \<open>E\<close> is \<open>T\<close> followed by the queue of the second. So the
  transactions were started in the order of the queue, and what is still queued is the
  rest in the same order. The bytes written to the device in between are the first
  \<open>k\<close> bytes of the queries for \<open>T\<close>: all queries but the last at least. The replies
  handed over in between are \<open>R\<close>: one for each transaction but, at most, the last, and
  each handed to the buffers object of its transaction. If \<open>full\<close>, all bytes were
  written and all replies handed over.
\<close>

definition fifo_rel :: "bool \<Rightarrow> server \<Rightarrow> server \<Rightarrow> bool" where
  "fifo_rel full s s' \<longleftrightarrow>
     eol_ser s' = eol_ser s \<and>
     (\<exists>T E k R. txns s' = txns s @ T \<and> enq s' = enq s @ E \<and>
        ser_queue s @ E = T @ ser_queue s' \<and>
        dev_rx s' = dev_rx s @ take k (wire (eol_ser s) T) \<and>
        length (wire (eol_ser s) (butlast T)) \<le> k \<and>
        replies s' = replies s @ R \<and> map fst R = map snd (take (length R) T) \<and>
        length T \<le> Suc (length R) \<and>
        (full \<longrightarrow> length (wire (eol_ser s) T) \<le> k \<and> length R = length T))"

text \<open>The serial device is registered with the selector.\<close>

definition ser_reg :: "server \<Rightarrow> bool" where
  "ser_reg s \<longleftrightarrow> (case sel s of None \<Rightarrow> False | Some m \<Rightarrow> m SerialObj \<noteq> None)"

section \<open>Example servers and environments\<close>

text \<open>
  \<^verbatim>\<open>__init__\<close> with the two end-of-line markers and the timeout: a closed server with
  no resources, an empty queue and no clients.
\<close>

definition new_server :: "bytes \<Rightarrow> bytes \<Rightarrow> real \<Rightarrow> server" where
  "new_server es ek t =
     \<lparr>opened = False, serving = False, shutdown_request = False,
      eol_sock = ek, eol_ser = es, serial = None, timeout = t, sock = None, sel = None,
      ser_queue = [], clients = [],
      bufs = (\<lambda>n. \<lparr>cb_sock = n, in_buf = [], out_buf = []\<rparr>),
      next_obj = 0, dev_rx = [], txns = [], enq = [], sock_tx = (\<lambda>n. []),
      shut_socks = {}, closed_socks = {}, acq_log = [], replies = []\<rparr>"

text \<open>A server that talks \<^verbatim>\<open>\r\<close> to the device and \<^verbatim>\<open>\n\<close> to its clients.\<close>

definition relay_server :: server where
  "relay_server = new_server [CHR 0x0D] [CHR 0x0A] 1"

definition port_ok :: serial_port where
  "port_ok = \<lparr>is_open = True, ser_timeout = 1, write_timeout = None\<rparr>"

text \<open>
  The device is free at the first attempt. In this and the next examples every sum
  that is formed is a float itself, so that the rounding returns it.
\<close>

definition open_ok :: open_io where
  "open_ok =
     \<lparr>clock = [0, 0], round_r = (\<lambda>x. x), attempts = [Returns port_ok], create_r = Returns ()\<rparr>"

text \<open>
  The first attempt fails with \<^verbatim>\<open>ENOENT\<close> (errno 2, not the busy condition), the
  second, 0.0625 later and inside the window, succeeds.
\<close>

definition open_second_try :: open_io where
  "open_second_try =
     \<lparr>clock = [0, 0, 1 / 16], round_r = (\<lambda>x. x),
      attempts = [Raises (OSError 2), Returns port_ok], create_r = Returns ()\<rparr>"

text \<open>
  The device is busy at first and gone (\<^verbatim>\<open>ENOENT\<close>) at the second attempt; the third
  test of the loop condition reads a clock past the window of length 1.
\<close>

definition open_never :: open_io where
  "open_never =
     \<lparr>clock = [0, 0, 1 / 4, 3 / 2], round_r = (\<lambda>x. x),
      attempts = [Raises (OSError EBUSY), Raises (OSError 2), Returns port_ok],
      create_r = Returns ()\<rparr>"

text \<open>\<^verbatim>\<open>Serial(...)\<close> rejects a parameter with \<^verbatim>\<open>ValueError\<close>, which is no \<^verbatim>\<open>OSError\<close>.\<close>

definition open_bad_value :: open_io where
  "open_bad_value =
     \<lparr>clock = [0, 0, 1 / 4], round_r = (\<lambda>x. x),
      attempts = [Raises ValueError, Returns port_ok], create_r = Returns ()\<rparr>"

text \<open>
  A window below the spacing of the floats at the clock value: the clock reads
  1700000000 and the timeout is \<open>1 / 2 ^ 30\<close>, so the sum rounds to 1700000000.
\<close>

definition open_tiny_window :: open_io where
  "open_tiny_window =
     \<lparr>clock = [1700000000, 1700000000], round_r = (\<lambda>x. 1700000000),
      attempts = [Raises (OSError 2), Returns port_ok], create_r = Returns ()\<rparr>"

text \<open>What the acquisition loop does for a run of failures with the given errnos.\<close>

definition acts_of :: "nat list \<Rightarrow> open_act list" where
  "acts_of ns = concat (map (\<lambda>n. Attempt # (if n = EBUSY then [Sleep] else [])) ns)"

text \<open>The example server after \<^verbatim>\<open>open\<close> with the device free at once.\<close>

definition opened_server :: server where
  "opened_server =
     relay_server\<lparr>opened := True, serial := Some port_ok, sock := Some 0,
                  sel := Some [SockObj 0 \<mapsto> (EVENT_READ, NoData)], next_obj := 1,
                  acq_log := [Attempt]\<rparr>"

text \<open>The same server while it is serving; its device handle has the timeout 1.\<close>

definition serving_server :: server where
  "serving_server = opened_server\<lparr>serving := True\<rparr>"

definition close_ok :: close_io where
  "close_ok = \<lparr>ser_close_r = None, lshutdown_r = None, lclose_r = None, cclose_r = (\<lambda>c. None)\<rparr>"

text \<open>
  The results of the socket calls when \<^verbatim>\<open>recv\<close> returns the given bytes, a server
  with one accepted client (socket 1, buffers 1), and the results of the device calls
  when the successive writes take the given numbers of bytes and the device then
  answers with the given reply.
\<close>

definition recv_io :: "bytes \<Rightarrow> sock_io" where
  "recv_io b = \<lparr>accept_r = Returns (), recv_r = Returns b, send_r = Returns 0,
                shutdown_r = None, close_r = None\<rparr>"

definition one_client :: server where
  "one_client =
     opened_server\<lparr>clients := [1],
       sel := Some [SockObj 0 \<mapsto> (EVENT_READ, NoData), SockObj 1 \<mapsto> (EVENT_READ, ClientData 1)],
       next_obj := 2\<rparr>"

definition device_io :: "nat list \<Rightarrow> bytes \<Rightarrow> ser_io" where
  "device_io ws reply = \<lparr>write_r = map Returns ws, flush_r = Returns (), read_r = Returns reply\<rparr>"

text \<open>
  The server with one client after that client has sent \<^verbatim>\<open>PING\n\<close>, and the same
  server after the client has then closed its connection: the command is still queued.
\<close>

definition pending_server :: server where
  "pending_server =
     one_client\<lparr>ser_queue := [(''PING'', 1)], enq := [(''PING'', 1)],
       sel := Some [SockObj 0 \<mapsto> (EVENT_READ, NoData), SockObj 1 \<mapsto> (EVENT_READ, ClientData 1),
                    SerialObj \<mapsto> (EVENT_WRITE, QueueData)]\<rparr>"

definition departed_server :: server where
  "departed_server =
     pending_server\<lparr>clients := [],
       sel := Some [SockObj 0 \<mapsto> (EVENT_READ, NoData), SerialObj \<mapsto> (EVENT_WRITE, QueueData)],
       shut_socks := {1}, closed_socks := {1}\<rparr>"

text \<open>
  A run of \<^verbatim>\<open>serve_forever\<close> with two clients. Both connect; client 2 sends
  \<^verbatim>\<open>B1\<close>, client 1 sends \<^verbatim>\<open>A1\<close> and \<^verbatim>\<open>A2\<close> in one chunk; the device serves one
  command while client 2 sends \<^verbatim>\<open>B2\<close>, then another one; then the stop signal comes.
\<close>

definition two_clients_io :: serve_io where
  "two_clients_io =
     \<lparr>open_r = open_ok,
      batches =
        [[SockReady 0 EVENT_READ (recv_io [])],
         [SockReady 0 EVENT_READ (recv_io [])],
         [SockReady 2 EVENT_READ (recv_io (''B1'' @ [CHR 0x0A])),
          SockReady 1 EVENT_READ (recv_io (''A1'' @ [CHR 0x0A] @ ''A2'' @ [CHR 0x0A]))],
         [SerReady EVENT_WRITE (device_io [3] (''OK'' @ [CHR 0x0D])),
          SockReady 2 EVENT_READ (recv_io (''B2'' @ [CHR 0x0A]))],
         [SerReady EVENT_WRITE (device_io [3] (''OK'' @ [CHR 0x0D])), Stop]],
      fin_shutdown_r = (\<lambda>c. None), fin_close_r = (\<lambda>c. None)\<rparr>"

text \<open>
  The stop signal arrives during the first \<^verbatim>\<open>select\<close>. In the \<^verbatim>\<open>finally\<close> block
  every \<^verbatim>\<open>shutdown\<close> has the given result (\<open>Some 107\<close> is \<^verbatim>\<open>ENOTCONN\<close>), every
  \<^verbatim>\<open>close\<close> returns.
\<close>

definition stop_io :: "nat option \<Rightarrow> serve_io" where
  "stop_io e =
     \<lparr>open_r = open_ok, batches = [[Stop]], fin_shutdown_r = (\<lambda>c. e), fin_close_r = (\<lambda>c. None)\<rparr>"

text \<open>
  A server with two clients, sockets 1 and 2, and a stop during the first
  \<^verbatim>\<open>select\<close> after which \<^verbatim>\<open>shutdown\<close> raises \<^verbatim>\<open>ENOTCONN\<close> on socket 1 only.
\<close>

definition two_clients :: server where
  "two_clients =
     opened_server\<lparr>clients := [1, 2],
       sel := Some [SockObj 0 \<mapsto> (EVENT_READ, NoData), SockObj 1 \<mapsto> (EVENT_READ, ClientData 1),
                    SockObj 2 \<mapsto> (EVENT_READ, ClientData 2)],
       next_obj := 3\<rparr>"

definition stop_first_fails :: serve_io where
  "stop_first_fails =
     \<lparr>open_r = open_ok, batches = [[Stop]],
      fin_shutdown_r = (\<lambda>c. if c = 1 then Some 107 else None), fin_close_r = (\<lambda>c. None)\<rparr>"

section \<open>Lifecycle properties\<close>

subsection \<open>close while serving\<close>

text \<open>
  Claim C7. Calling \<^verbatim>\<open>close()\<close> while the server is serving raises the state error
  (\<^verbatim>\<open>RuntimeError\<close>) and leaves the whole server object as it was: flags, selector,
  device handle, queue, listening socket and client set.
\<close>

theorem close_while_serving:
  "serving s \<Longrightarrow> close io s = (Some RuntimeError, s)"
  by (simp add: close_def)

theorem close_while_serving_witness:
  "serving serving_server \<and> close close_ok serving_server = (Some RuntimeError, serving_server)"
proof -
  have h: "serving serving_server"
    by (simp add: serving_server_def opened_server_def)
  from h close_while_serving [OF h, of close_ok] show ?thesis
    by simp
qed

subsection \<open>The timeout setter\<close>

text \<open>
  Claim C9 says that an assignment to the timeout cannot change the device timeout
  while the server is serving. The setter has no such guard: on the serving example
  server, whose device timeout is 1, assigning 2 succeeds and the device timeout is 2.
\<close>

theorem timeout_while_serving_counterexample:
  "serving serving_server \<and>
   map_option ser_timeout (serial serving_server) = Some 1 \<and>
   fst (set_timeout 2 serving_server) = None \<and>
   map_option ser_timeout (serial (snd (set_timeout 2 serving_server))) = Some 2"
  by (simp add: set_timeout_def serving_server_def opened_server_def relay_server_def
      new_server_def port_ok_def)

text \<open>
  Claim C9, amended. In every state, serving or not, assigning a non-negative value
  succeeds: it becomes the server's timeout and, if there is a device handle, the read
  and the write timeout of the device. The serving flag plays no part.
\<close>

theorem set_timeout_in_any_state:
  "0 \<le> val \<Longrightarrow>
     fst (set_timeout val s) = None \<and>
     timeout (snd (set_timeout val s)) = val \<and>
     serial (snd (set_timeout val s)) =
       map_option (\<lambda>p. p\<lparr>ser_timeout := val, write_timeout := Some val\<rparr>) (serial s) \<and>
     serving (snd (set_timeout val s)) = serving s"
  by (simp add: set_timeout_def)

theorem set_timeout_in_any_state_witness:
  "(0::real) \<le> 3 \<and> serving serving_server \<and>
   fst (set_timeout 3 serving_server) = None \<and>
   timeout (snd (set_timeout 3 serving_server)) = 3 \<and>
   serial (snd (set_timeout 3 serving_server)) =
     Some \<lparr>is_open = True, ser_timeout = 3, write_timeout = Some 3\<rparr> \<and>
   serving (snd (set_timeout 3 serving_server))"
proof -
  have h: "(0::real) \<le> 3"
    by simp
  have sv: "serving serving_server"
    and sp: "serial serving_server = Some \<lparr>is_open = True, ser_timeout = 1, write_timeout = None\<rparr>"
    by (simp_all add: serving_server_def opened_server_def relay_server_def new_server_def
        port_ok_def)
  from set_timeout_in_any_state [OF h, of serving_server] h sv sp show ?thesis
    by simp
qed

subsection \<open>The acquisition loop of open\<close>

lemma acquire_failures:
  "length ns = length ts \<Longrightarrow> \<forall>t\<in>set ts. t < d \<Longrightarrow>
     acquire d (ts @ ts') (map (\<lambda>n. Raises (OSError n)) ns @ atts') exc acts =
     acquire d ts' atts' (if ns = [] then exc else OSError (last ns)) (acts @ acts_of ns)"
proof (induction ts arbitrary: ns exc acts)
  case Nil
  then show ?case by (simp add: acts_of_def)
next
  case (Cons t ts)
  then obtain n ns' where ns: "ns = n # ns'"
    by (cases ns) auto
  with Cons.prems have len: "length ns' = length ts" and lt: "t < d"
    and rest: "\<forall>t\<in>set ts. t < d"
    by auto
  have "acquire d ((t # ts) @ ts') (map (\<lambda>n. Raises (OSError n)) ns @ atts') exc acts =
        acquire d (ts @ ts') (map (\<lambda>n. Raises (OSError n)) ns' @ atts') (OSError n)
          (acts @ [Attempt] @ (if n = EBUSY then [Sleep] else []))"
    using lt ns by simp
  also have "\<dots> = acquire d ts' atts' (if ns' = [] then OSError n else OSError (last ns'))
          ((acts @ [Attempt] @ (if n = EBUSY then [Sleep] else [])) @ acts_of ns')"
    by (rule Cons.IH [OF len rest])
  finally show ?case
    using ns by (simp add: acts_of_def)
qed

text \<open>
  Claim C5 says that a failure other than the busy condition ends the acquisition at
  once, with no further attempt, and is raised. For an \<^verbatim>\<open>OSError\<close> with another errno
  the code only skips the sleep; the loop goes on. Here the first attempt fails with
  \<^verbatim>\<open>ENOENT\<close>, a second attempt is made, it succeeds, and \<^verbatim>\<open>open\<close> raises nothing.
\<close>

theorem open_retries_other_errors_counterexample:
  "attempts open_second_try = [Raises (OSError 2), Returns port_ok] \<and> 2 \<noteq> EBUSY \<and>
   map_option fst (open_srv open_second_try relay_server) = Some None \<and>
   map_option (acq_log \<circ> snd) (open_srv open_second_try relay_server) = Some [Attempt, Attempt]"
  by (simp add: open_second_try_def relay_server_def new_server_def open_srv_def port_ok_def
      sel_register_def EBUSY_def float_add_def)

text \<open>
  Claim C5, amended. A failure of the acquisition that is not an \<^verbatim>\<open>OSError\<close> ends
  \<^verbatim>\<open>open\<close> at once: no further attempt is made and the failure is raised. Every
  \<^verbatim>\<open>OSError\<close> is retried while the grace window is open: after the busy condition
  (\<^verbatim>\<open>EBUSY\<close>) the loop waits 0.1 first, after any other \<^verbatim>\<open>OSError\<close> it tries again
  at once. When the window is exhausted the last error is raised.

  Formally, for two runs of \<^verbatim>\<open>open\<close>. In the first, the attempts made inside the
  window fail with the errnos \<open>ns\<close> and the next clock reading is outside the window:
  \<^verbatim>\<open>open\<close> has made one attempt per errno, has slept after each \<^verbatim>\<open>EBUSY\<close> and after
  no other, and raises the last of the errors. In the second, the attempts fail with the
  errnos \<open>ms\<close> (there may be none) and the next one, still inside the window, fails
  with \<open>e\<close>, which is no \<^verbatim>\<open>OSError\<close>: that attempt is the last, and \<open>e\<close> is raised.
  The window ends at the float \<^verbatim>\<open>time_i + self.timeout\<close>.
\<close>

theorem open_retries_until_window_ends:
  assumes "\<not> opened s"
    and "clock io = time_i # ts @ t # ts'"
    and "\<forall>u\<in>set ts. u < float_add (round_r io) time_i (timeout s)"
    and "float_add (round_r io) time_i (timeout s) \<le> t"
    and "length ns = length ts"
    and "ns \<noteq> []"
    and "attempts io = map (\<lambda>n. Raises (OSError n)) ns @ atts"
    and "\<not> opened s2"
    and "clock io2 = time_j # us @ u # us'"
    and "\<forall>v\<in>set us. v < float_add (round_r io2) time_j (timeout s2)"
    and "u < float_add (round_r io2) time_j (timeout s2)"
    and "length ms = length us"
    and "attempts io2 = map (\<lambda>n. Raises (OSError n)) ms @ Raises e # atts2"
    and "\<not> is_OSError e"
  shows "(\<exists>s'. open_srv io s = Some (Some (OSError (last ns)), s') \<and>
                acq_log s' = acq_log s @ acts_of ns \<and> \<not> opened s') \<and>
         (\<exists>s'. open_srv io2 s2 = Some (Some e, s') \<and>
                acq_log s' = acq_log s2 @ acts_of ms @ [Attempt] \<and> \<not> opened s')"
proof
  let ?d = "float_add (round_r io) time_i (timeout s)"
  have "acquire ?d (ts @ t # ts') (attempts io) PlainException [] =
        acquire ?d (t # ts') atts (OSError (last ns)) ([] @ acts_of ns)"
    using acquire_failures [OF assms(5) assms(3), of "t # ts'" atts PlainException "[]"] assms(6,7)
    by simp
  also have "\<dots> = Some (Inr (None, OSError (last ns)), acts_of ns)"
    using assms(4) by simp
  finally show "\<exists>s'. open_srv io s = Some (Some (OSError (last ns)), s') \<and>
                acq_log s' = acq_log s @ acts_of ns \<and> \<not> opened s'"
    using assms(1,2) by (simp add: open_srv_def)
next
  let ?d = "float_add (round_r io2) time_j (timeout s2)"
  let ?exc = "if ms = [] then PlainException else OSError (last ms)"
  have "acquire ?d (us @ u # us') (attempts io2) PlainException [] =
        acquire ?d (u # us') (Raises e # atts2) ?exc ([] @ acts_of ms)"
    using acquire_failures [OF assms(12) assms(10), of "u # us'" "Raises e # atts2"
        PlainException "[]"] assms(13)
    by simp
  also have "\<dots> = Some (Inl e, acts_of ms @ [Attempt])"
    using assms(11,14) by simp
  finally show "\<exists>s'. open_srv io2 s2 = Some (Some e, s') \<and>
                acq_log s' = acq_log s2 @ acts_of ms @ [Attempt] \<and> \<not> opened s'"
    using assms(8,9) by (simp add: open_srv_def)
qed

theorem open_retries_until_window_ends_witness:
  "map_option fst (open_srv open_never relay_server) = Some (Some (OSError 2)) \<and>
   map_option (acq_log \<circ> snd) (open_srv open_never relay_server) =
     Some [Attempt, Sleep, Attempt] \<and>
   map_option fst (open_srv open_bad_value relay_server) = Some (Some ValueError) \<and>
   map_option (acq_log \<circ> snd) (open_srv open_bad_value relay_server) = Some [Attempt]"
proof -
  have 1: "\<not> opened relay_server"
    by (simp add: relay_server_def new_server_def)
  have 2: "clock open_never = 0 # [0, 1 / 4] @ (3 / 2) # []"
    by (simp add: open_never_def)
  have 3: "\<forall>u\<in>set [0, 1 / 4]. u < float_add (round_r open_never) 0 (timeout relay_server)"
    by (simp add: relay_server_def new_server_def open_never_def float_add_def)
  have 4: "float_add (round_r open_never) 0 (timeout relay_server) \<le> 3 / 2"
    by (simp add: relay_server_def new_server_def open_never_def float_add_def)
  have 5: "length [EBUSY, 2] = length [0, 1 / 4 :: real]"
    by simp
  have 6: "[EBUSY, 2] \<noteq> []"
    by simp
  have 7: "attempts open_never = map (\<lambda>n. Raises (OSError n)) [EBUSY, 2] @ [Returns port_ok]"
    by (simp add: open_never_def)
  have 9: "clock open_bad_value = 0 # [] @ 0 # [1 / 4]"
    by (simp add: open_bad_value_def)
  have 10: "\<forall>v\<in>set []. v < float_add (round_r open_bad_value) 0 (timeout relay_server)"
    by simp
  have 11: "0 < float_add (round_r open_bad_value) 0 (timeout relay_server)"
    by (simp add: relay_server_def new_server_def open_bad_value_def float_add_def)
  have 12: "length ([] :: nat list) = length ([] :: real list)"
    by simp
  have 13: "attempts open_bad_value =
      map (\<lambda>n. Raises (OSError n)) [] @ Raises ValueError # [Returns port_ok]"
    by (simp add: open_bad_value_def)
  have 14: "\<not> is_OSError ValueError"
    by simp
  from open_retries_until_window_ends [OF 1 2 3 4 5 6 7 1 9 10 11 12 13 14]
  obtain s' s'' where "open_srv open_never relay_server = Some (Some (OSError (last [EBUSY, 2])), s')"
    and "acq_log s' = acq_log relay_server @ acts_of [EBUSY, 2]"
    and "open_srv open_bad_value relay_server = Some (Some ValueError, s'')"
    and "acq_log s'' = acq_log relay_server @ acts_of [] @ [Attempt]"
    by blast
  then show ?thesis
    by (simp add: acts_of_def relay_server_def new_server_def EBUSY_def)
qed

text \<open>
  The window is the float sum, not the real one. With the clock at 1700000000 and a
  timeout of \<open>1 / 2 ^ 30\<close> the sum rounds to the clock value, the loop condition is false
  at its first test, and \<^verbatim>\<open>open\<close> raises its \<^verbatim>\<open>Exception()\<close> without an attempt.
\<close>

lemma open_tiny_window_no_attempt:
  "map_option fst (open_srv open_tiny_window (relay_server\<lparr>timeout := 1 / 2 ^ 30\<rparr>)) =
     Some (Some PlainException) \<and>
   map_option (acq_log \<circ> snd) (open_srv open_tiny_window (relay_server\<lparr>timeout := 1 / 2 ^ 30\<rparr>)) =
     Some []"
  by (simp add: open_tiny_window_def relay_server_def new_server_def open_srv_def float_add_def)

text \<open>
  Claim C10. With a timeout of 0 the loop condition \<^verbatim>\<open>time() < time_i + 0\<close> is false
  at its first test, the clock not running backwards between the two readings. So
  \<^verbatim>\<open>open\<close> on a closed server makes no acquisition attempt, whatever the device would
  have answered, and raises the message-less \<^verbatim>\<open>Exception()\<close> it created beforehand.
\<close>

theorem open_with_zero_timeout:
  assumes "\<not> opened s"
    and "timeout s = 0"
    and "clock io = time_i # t # ts"
    and "time_i \<le> t"
  shows "\<exists>s'. open_srv io s = Some (Some PlainException, s') \<and>
               acq_log s' = acq_log s \<and> serial s' = None \<and> \<not> opened s'"
  using assms by (simp add: open_srv_def float_add_def)

theorem open_with_zero_timeout_witness:
  "attempts open_ok = [Returns port_ok] \<and> is_open port_ok \<and>
   map_option fst (open_srv open_ok (relay_server\<lparr>timeout := 0\<rparr>)) = Some (Some PlainException) \<and>
   map_option (acq_log \<circ> snd) (open_srv open_ok (relay_server\<lparr>timeout := 0\<rparr>)) = Some []"
proof -
  have 1: "\<not> opened (relay_server\<lparr>timeout := 0\<rparr>)"
    and 2: "timeout (relay_server\<lparr>timeout := 0\<rparr>) = 0"
    and 5: "acq_log (relay_server\<lparr>timeout := 0\<rparr>) = []"
    by (simp_all add: relay_server_def new_server_def)
  have 3: "clock open_ok = 0 # 0 # []"
    by (simp add: open_ok_def)
  have 4: "(0::real) \<le> 0"
    by simp
  from open_with_zero_timeout [OF 1 2 3 4] 5 show ?thesis
    by (auto simp: open_ok_def port_ok_def)
qed

section \<open>Splitting, replacing and writing bytes\<close>

lemma split_from_nonempty: "split_from sep cur xs \<noteq> []"
  by (induction sep cur xs rule: split_from.induct) auto

lemma join_Cons: "ps \<noteq> [] \<Longrightarrow> join sep (p # ps) = p @ sep @ join sep ps"
  by (cases ps) auto

lemma join_split_from: "join sep (split_from sep cur xs) = cur @ xs"
proof (induction sep cur xs rule: split_from.induct)
  case (1 sep cur)
  show ?case by simp
next
  case (2 sep cur x xs)
  show ?case
  proof (cases "sep \<noteq> [] \<and> take (length sep) (x # xs) = sep")
    case True
    then have "join sep (split_from sep [] (drop (length sep) (x # xs))) = drop (length sep) (x # xs)"
      using "2.IH"(1) by simp
    moreover have "sep @ drop (length sep) (x # xs) = x # xs"
      using True by (metis append_take_drop_id)
    ultimately show ?thesis
      using True by (simp add: join_Cons split_from_nonempty)
  next
    case False
    then show ?thesis
      using "2.IH"(2) by auto
  qed
qed

lemma split_from_pieces:
  assumes "sep \<noteq> []" and "\<forall>i<length cur. \<not> occurs_at sep i (cur @ xs)"
  shows "\<forall>p\<in>set (split_from sep cur xs). \<forall>i. \<not> occurs_at sep i p"
  using assms
proof (induction sep cur xs rule: split_from.induct)
  case (1 sep cur)
  have "\<not> occurs_at sep i cur" for i
  proof (cases "i < length cur")
    case True
    with "1.prems" show ?thesis by simp
  next
    case False
    with \<open>sep \<noteq> []\<close> show ?thesis by (auto simp: occurs_at_def)
  qed
  then show ?case by simp
next
  case (2 sep cur x xs)
  show ?case
  proof (cases "take (length sep) (x # xs) = sep")
    case True
    have "\<not> occurs_at sep i cur" for i
    proof
      assume occ: "occurs_at sep i cur"
      then have "length (take (length sep) (drop i cur)) = length sep"
        by (simp add: occurs_at_def)
      then have le: "length sep \<le> length cur - i"
        by simp
      with \<open>sep \<noteq> []\<close> have lt: "i < length cur"
        by (cases sep) auto
      from le occ have "occurs_at sep i (cur @ x # xs)"
        by (simp add: occurs_at_def)
      with lt have "occurs_at sep i (cur @ x # xs)" "i < length cur"
        by simp_all
      with "2.prems" show False by blast
    qed
    moreover have "\<forall>p\<in>set (split_from sep [] (drop (length sep) (x # xs))). \<forall>i. \<not> occurs_at sep i p"
      using "2.IH"(1) True \<open>sep \<noteq> []\<close> by simp
    ultimately show ?thesis
      using True \<open>sep \<noteq> []\<close> by simp
  next
    case False
    have "\<forall>i<length (cur @ [x]). \<not> occurs_at sep i ((cur @ [x]) @ xs)"
    proof (intro allI impI)
      fix i assume "i < length (cur @ [x])"
      then consider "i < length cur" | "i = length cur" by fastforce
      then show "\<not> occurs_at sep i ((cur @ [x]) @ xs)"
      proof cases
        case 1
        with "2.prems" show ?thesis by simp
      next
        case 2
        with False show ?thesis by (simp add: occurs_at_def)
      qed
    qed
    then show ?thesis
      using "2.IH"(2) False \<open>sep \<noteq> []\<close> by simp
  qed
qed

lemma split_single:
  "c \<notin> set xs \<Longrightarrow> split_from [c] cur (xs @ [c]) = [cur @ xs, []]"
  by (induction xs arbitrary: cur) auto

lemma replace_single:
  "c \<notin> set xs \<Longrightarrow> replace_from [c] new (xs @ [c]) = xs @ new"
  by (induction xs) auto

lemma write_all_complete:
  "write_all ws q acc = Some (None, w) \<Longrightarrow> w = acc @ q"
  by (induction ws q acc rule: write_all.induct) auto

section \<open>The event handlers\<close>

lemma client_read_chunks:
  assumes rc: "recv_r io = Returns received" and ne: "received \<noteq> []"
    and eol: "eol_sock s \<noteq> []"
    and ser: "serial s \<noteq> None" and sl: "sel s = Some m"
    and arm: "(m SerialObj = None) = (ser_queue s = [])"
  shows "\<exists>s'. client_read sk r io s = (None, s') \<and>
      in_buf (bufs s' r) = last (split_from (eol_sock s) [] (in_buf (bufs s r) @ received)) \<and>
      ser_queue s' = ser_queue s @
        map (\<lambda>cmd. (cmd, r)) (butlast (split_from (eol_sock s) [] (in_buf (bufs s r) @ received))) \<and>
      sel s' = Some (if ser_queue s = [] \<and>
                        butlast (split_from (eol_sock s) [] (in_buf (bufs s r) @ received)) \<noteq> []
                     then m(SerialObj \<mapsto> (EVENT_WRITE, QueueData)) else m) \<and>
      serial s' = serial s \<and> eol_sock s' = eol_sock s \<and> eol_ser s' = eol_ser s \<and>
      clients s' = clients s \<and> dev_rx s' = dev_rx s \<and>
      out_buf (bufs s' r) = out_buf (bufs s r) \<and> cb_sock (bufs s' r) = cb_sock (bufs s r)"
proof (cases "ser_queue s = []")
  case True
  with arm have "m SerialObj = None" by simp
  with True rc ne eol ser sl show ?thesis
    by (auto simp: client_read_def bytes_split_def sel_register_def submit_def Let_def)
next
  case False
  with arm obtain v where "m SerialObj = Some v" by auto
  with False rc ne eol ser sl show ?thesis
    by (cases v) (auto simp: client_read_def bytes_split_def submit_def Let_def fun_upd_idem)
qed

text \<open>
  Claim C3. A client socket is readable and \<^verbatim>\<open>recv\<close> returns a non-empty chunk; the
  socket end-of-line marker is not empty, and the device is registered exactly if the
  queue holds commands (as in every state the handlers reach). Then the handler raises
  nothing, the chunk is appended to the inbound buffer and the result is split at the
  marker: every piece but the last is appended to the queue as one command of this
  client, in order, and the last piece is the new inbound buffer. The pieces joined by
  the marker are the buffer, and no piece holds the marker. In particular, with the
  marker \<^verbatim>\<open>\n\<close> and an empty inbound buffer, \<^verbatim>\<open>AB\<close> followed by \<^verbatim>\<open>CD\n\<close> queues
  nothing at first and then exactly the command \<^verbatim>\<open>ABCD\<close>, and leaves the inbound
  buffer empty.
\<close>

theorem line_reassembly:
  assumes rd: "msk AND EVENT_READ \<noteq> 0"
    and eol: "eol_sock s \<noteq> []"
    and ser: "serial s \<noteq> None" and sl: "sel s = Some m"
    and arm: "(m SerialObj = None) = (ser_queue s = [])"
    and rc: "recv_r io = Returns received" and ne: "received \<noteq> []"
  shows "(\<exists>s'. process_socket sk (Some r) msk io s = (None, s') \<and>
      in_buf (bufs s' r) = last (split_from (eol_sock s) [] (in_buf (bufs s r) @ received)) \<and>
      ser_queue s' = ser_queue s @
        map (\<lambda>cmd. (cmd, r)) (butlast (split_from (eol_sock s) [] (in_buf (bufs s r) @ received)))) \<and>
    join (eol_sock s) (split_from (eol_sock s) [] (in_buf (bufs s r) @ received)) =
      in_buf (bufs s r) @ received \<and>
    (\<forall>p\<in>set (split_from (eol_sock s) [] (in_buf (bufs s r) @ received)). \<forall>i. \<not> occurs_at (eol_sock s) i p) \<and>
    (eol_sock s = [CHR 0x0A] \<longrightarrow> in_buf (bufs s r) = [] \<longrightarrow>
       recv_r io1 = Returns ''AB'' \<longrightarrow> recv_r io2 = Returns (''CD'' @ [CHR 0x0A]) \<longrightarrow>
       (\<exists>s1 s2. process_socket sk (Some r) msk io1 s = (None, s1) \<and>
                 process_socket sk (Some r) msk io2 s1 = (None, s2) \<and>
                 ser_queue s1 = ser_queue s \<and>
                 ser_queue s2 = ser_queue s @ [(''ABCD'', r)] \<and>
                 in_buf (bufs s2 r) = []))"
proof (intro conjI impI)
  from client_read_chunks [OF rc ne eol ser sl arm, of sk r] rd
  show "\<exists>s'. process_socket sk (Some r) msk io s = (None, s') \<and>
      in_buf (bufs s' r) = last (split_from (eol_sock s) [] (in_buf (bufs s r) @ received)) \<and>
      ser_queue s' = ser_queue s @
        map (\<lambda>cmd. (cmd, r)) (butlast (split_from (eol_sock s) [] (in_buf (bufs s r) @ received)))"
    by (auto simp: process_socket_def)
next
  show "join (eol_sock s) (split_from (eol_sock s) [] (in_buf (bufs s r) @ received)) =
      in_buf (bufs s r) @ received"
    using join_split_from [of "eol_sock s" "[]"] by simp
next
  show "\<forall>p\<in>set (split_from (eol_sock s) [] (in_buf (bufs s r) @ received)). \<forall>i. \<not> occurs_at (eol_sock s) i p"
    by (rule split_from_pieces [OF eol]) simp
next
  assume lf: "eol_sock s = [CHR 0x0A]" and emp: "in_buf (bufs s r) = []"
    and r1: "recv_r io1 = Returns ''AB''" and r2: "recv_r io2 = Returns (''CD'' @ [CHR 0x0A])"
  from client_read_chunks [OF r1 _ eol ser sl arm, of sk r] lf emp
  obtain s1 where s1: "client_read sk r io1 s = (None, s1)"
    and b1: "in_buf (bufs s1 r) = ''AB''" and q1: "ser_queue s1 = ser_queue s"
    and sl1: "sel s1 = Some m"
    and ser1: "serial s1 = serial s" and eol1: "eol_sock s1 = eol_sock s"
    by auto
  from eol eol1 have eol1': "eol_sock s1 \<noteq> []"
    by simp
  from ser ser1 have ser1': "serial s1 \<noteq> None"
    by simp
  from arm q1 have arm1: "(m SerialObj = None) = (ser_queue s1 = [])"
    by simp
  from client_read_chunks [OF r2 _ eol1' ser1' sl1 arm1, of sk r] lf eol1 b1 q1
  obtain s2 where s2: "client_read sk r io2 s1 = (None, s2)"
    and b2: "in_buf (bufs s2 r) = []" and q2: "ser_queue s2 = ser_queue s @ [(''ABCD'', r)]"
    by auto
  from s1 s2 q1 q2 b2 rd
  show "\<exists>s1 s2. process_socket sk (Some r) msk io1 s = (None, s1) \<and>
                 process_socket sk (Some r) msk io2 s1 = (None, s2) \<and>
                 ser_queue s1 = ser_queue s \<and>
                 ser_queue s2 = ser_queue s @ [(''ABCD'', r)] \<and>
                 in_buf (bufs s2 r) = []"
    by (simp add: process_socket_def)
qed

lemma one_client_accepted:
  "process_socket 0 None EVENT_READ (recv_io []) opened_server = (None, one_client)"
  by (simp add: process_socket_def accept_client_def recv_io_def opened_server_def
      relay_server_def new_server_def sel_register_def one_client_def EVENT_READ_def Let_def
      fun_eq_iff)

theorem line_reassembly_witness:
  "fst (process_socket 1 (Some 1) EVENT_READ (recv_io ''AB'') one_client) = None \<and>
   ser_queue (snd (process_socket 1 (Some 1) EVENT_READ (recv_io ''AB'') one_client)) = [] \<and>
   fst (process_socket 1 (Some 1) EVENT_READ (recv_io (''CD'' @ [CHR 0x0A]))
         (snd (process_socket 1 (Some 1) EVENT_READ (recv_io ''AB'') one_client))) = None \<and>
   ser_queue (snd (process_socket 1 (Some 1) EVENT_READ (recv_io (''CD'' @ [CHR 0x0A]))
         (snd (process_socket 1 (Some 1) EVENT_READ (recv_io ''AB'') one_client)))) = [(''ABCD'', 1)] \<and>
   in_buf (bufs (snd (process_socket 1 (Some 1) EVENT_READ (recv_io (''CD'' @ [CHR 0x0A]))
         (snd (process_socket 1 (Some 1) EVENT_READ (recv_io ''AB'') one_client)))) 1) = []"
proof -
  let ?m = "[SockObj 0 \<mapsto> (EVENT_READ, NoData), SockObj 1 \<mapsto> (EVENT_READ, ClientData 1)]"
  have rd: "EVENT_READ AND EVENT_READ \<noteq> 0"
    by (simp add: EVENT_READ_def)
  have eol: "eol_sock one_client \<noteq> []" and lf: "eol_sock one_client = [CHR 0x0A]"
    and ser: "serial one_client \<noteq> None" and sl: "sel one_client = Some ?m"
    and q: "ser_queue one_client = []" and emp: "in_buf (bufs one_client 1) = []"
    by (simp_all add: one_client_def opened_server_def relay_server_def new_server_def)
  have arm: "(?m SerialObj = None) = (ser_queue one_client = [])"
    using q by simp
  have rc: "recv_r (recv_io ''AB'') = Returns ''AB''"
    and rc2: "recv_r (recv_io (''CD'' @ [CHR 0x0A])) = Returns (''CD'' @ [CHR 0x0A])"
    by (simp_all add: recv_io_def)
  have ne: "''AB'' \<noteq> []"
    by simp
  from line_reassembly [OF rd eol ser sl arm rc ne, of 1 1 "recv_io ''AB''"
      "recv_io (''CD'' @ [CHR 0x0A])"] lf emp rc rc2
  obtain s1 s2 where "process_socket 1 (Some 1) EVENT_READ (recv_io ''AB'') one_client = (None, s1)"
    and "process_socket 1 (Some 1) EVENT_READ (recv_io (''CD'' @ [CHR 0x0A])) s1 = (None, s2)"
    and "ser_queue s1 = ser_queue one_client"
    and "ser_queue s2 = ser_queue one_client @ [(''ABCD'', 1)]"
    and "in_buf (bufs s2 1) = []"
    by blast
  with q show ?thesis
    by simp
qed

lemma process_serial_txn:
  assumes wr: "msk AND EVENT_WRITE \<noteq> 0"
    and q: "ser_queue s = (cmd, r) # rest"
    and sl: "sel s = Some m" and reg: "m SerialObj \<noteq> None"
    and w: "write_all (write_r io) (cmd @ eol_ser s) [] = Some (None, w)"
    and fl: "flush_r io = Returns ()" and rd: "read_r io = Returns raw"
    and act: "cb_sock (bufs s r) \<in> set (clients s) \<longrightarrow> m (SockObj (cb_sock (bufs s r))) \<noteq> None"
  shows "\<exists>s'. process_serial msk io s = Some (None, s') \<and>
      dev_rx s' = dev_rx s @ cmd @ eol_ser s \<and>
      out_buf (bufs s' r) = out_buf (bufs s r) @ bytes_replace raw (eol_ser s) (eol_sock s) \<and>
      ser_queue s' = rest \<and> txns s' = txns s @ [(cmd, r)] \<and> sock_tx s' = sock_tx s"
proof -
  from write_all_complete [OF w] have w': "w = cmd @ eol_ser s"
    by simp
  from reg obtain v where v: "m SerialObj = Some v"
    by auto
  show ?thesis
  proof (cases "out_buf (bufs s r) = [] \<and> cb_sock (bufs s r) \<in> set (clients s)")
    case True
    with act obtain u where "m (SockObj (cb_sock (bufs s r))) = Some u"
      by auto
    with True wr q sl v w w' fl rd show ?thesis
      by (auto simp: process_serial_def deliver_def sel_unregister_def sel_modify_def Let_def)
  next
    case False
    with wr q sl v w w' fl rd show ?thesis
      by (auto simp: process_serial_def deliver_def sel_unregister_def sel_modify_def Let_def)
  qed
qed

text \<open>
  Claim C4. The device marker is \<^verbatim>\<open>\r\<close>, the socket marker \<^verbatim>\<open>\n\<close>. A client whose
  inbound buffer is empty sends one line, a command without \<^verbatim>\<open>\n\<close> followed by
  \<^verbatim>\<open>\n\<close>, while the queue is empty; the device takes all the bytes written to it and
  answers with a reply without \<^verbatim>\<open>\r\<close> followed by \<^verbatim>\<open>\r\<close>. Then the bytes written
  to the device are exactly the command followed by \<^verbatim>\<open>\r\<close>, and the bytes appended
  to the client's outbound buffer are exactly the reply followed by \<^verbatim>\<open>\n\<close>. For
  \<^verbatim>\<open>PING\n\<close> and \<^verbatim>\<open>PONG\r\<close> the device gets \<^verbatim>\<open>PING\r\<close> and the client
  \<^verbatim>\<open>PONG\n\<close>.
\<close>

theorem eol_round_trip:
  assumes es: "eol_ser s = [CHR 0x0D]" and ek: "eol_sock s = [CHR 0x0A]"
    and c: "CHR 0x0A \<notin> set cmd" and p: "CHR 0x0D \<notin> set rep"
    and rdm: "msk AND EVENT_READ \<noteq> 0" and wrm: "msk' AND EVENT_WRITE \<noteq> 0"
    and emp: "in_buf (bufs s r) = []" and q: "ser_queue s = []"
    and ser: "serial s \<noteq> None" and sl: "sel s = Some m" and unarmed: "m SerialObj = None"
    and act: "cb_sock (bufs s r) \<in> set (clients s) \<longrightarrow> m (SockObj (cb_sock (bufs s r))) \<noteq> None"
    and rc: "recv_r io = Returns (cmd @ [CHR 0x0A])"
    and w: "write_all (write_r dio) (cmd @ [CHR 0x0D]) [] = Some (None, w)"
    and fl: "flush_r dio = Returns ()" and rd: "read_r dio = Returns (rep @ [CHR 0x0D])"
  shows "\<exists>s1 s2. process_socket sk (Some r) msk io s = (None, s1) \<and>
      ser_queue s1 = [(cmd, r)] \<and>
      process_serial msk' dio s1 = Some (None, s2) \<and>
      dev_rx s2 = dev_rx s @ cmd @ [CHR 0x0D] \<and>
      out_buf (bufs s2 r) = out_buf (bufs s r) @ rep @ [CHR 0x0A]"
proof -
  have eol: "eol_sock s \<noteq> []"
    using ek by simp
  have arm: "(m SerialObj = None) = (ser_queue s = [])"
    using unarmed q by simp
  have sp: "split_from [CHR 0x0A] [] (cmd @ [CHR 0x0A]) = [cmd, []]"
    using split_single [OF c, of "[]"] by simp
  from client_read_chunks [OF rc _ eol ser sl arm, of sk r] ek emp q sp
  obtain s1 where s1: "client_read sk r io s = (None, s1)"
    and q1: "ser_queue s1 = [(cmd, r)]"
    and sl1: "sel s1 = Some (m(SerialObj \<mapsto> (EVENT_WRITE, QueueData)))"
    and es1: "eol_ser s1 = eol_ser s" and ek1: "eol_sock s1 = eol_sock s"
    and cl1: "clients s1 = clients s" and rx1: "dev_rx s1 = dev_rx s"
    and ob1: "out_buf (bufs s1 r) = out_buf (bufs s r)"
    and cb1: "cb_sock (bufs s1 r) = cb_sock (bufs s r)"
    by auto
  have reg1: "(m(SerialObj \<mapsto> (EVENT_WRITE, QueueData))) SerialObj \<noteq> None"
    by simp
  have w1: "write_all (write_r dio) (cmd @ eol_ser s1) [] = Some (None, w)"
    using w es es1 by simp
  have act1: "cb_sock (bufs s1 r) \<in> set (clients s1) \<longrightarrow>
      (m(SerialObj \<mapsto> (EVENT_WRITE, QueueData))) (SockObj (cb_sock (bufs s1 r))) \<noteq> None"
    using act cb1 cl1 by simp
  from process_serial_txn [OF wrm q1 sl1 reg1 w1 fl rd act1]
  obtain s2 where s2: "process_serial msk' dio s1 = Some (None, s2)"
    and rx2: "dev_rx s2 = dev_rx s1 @ cmd @ eol_ser s1"
    and ob2: "out_buf (bufs s2 r) =
        out_buf (bufs s1 r) @ bytes_replace (rep @ [CHR 0x0D]) (eol_ser s1) (eol_sock s1)"
    by blast
  have "bytes_replace (rep @ [CHR 0x0D]) (eol_ser s1) (eol_sock s1) = rep @ [CHR 0x0A]"
    using replace_single [OF p, of "[CHR 0x0A]"] es es1 ek ek1 by (simp add: bytes_replace_def)
  with s1 q1 s2 rx2 ob2 rx1 ob1 es es1 rdm show ?thesis
    by (simp add: process_socket_def)
qed

theorem eol_round_trip_witness:
  "fst (process_socket 1 (Some 1) EVENT_READ (recv_io (''PING'' @ [CHR 0x0A])) one_client) = None \<and>
   map_option fst (process_serial EVENT_WRITE (device_io [2, 0, 3] (''PONG'' @ [CHR 0x0D]))
       (snd (process_socket 1 (Some 1) EVENT_READ (recv_io (''PING'' @ [CHR 0x0A])) one_client)))
     = Some None \<and>
   map_option (dev_rx \<circ> snd) (process_serial EVENT_WRITE (device_io [2, 0, 3] (''PONG'' @ [CHR 0x0D]))
       (snd (process_socket 1 (Some 1) EVENT_READ (recv_io (''PING'' @ [CHR 0x0A])) one_client)))
     = Some (''PING'' @ [CHR 0x0D]) \<and>
   map_option ((\<lambda>t. out_buf (bufs t 1)) \<circ> snd)
     (process_serial EVENT_WRITE (device_io [2, 0, 3] (''PONG'' @ [CHR 0x0D]))
       (snd (process_socket 1 (Some 1) EVENT_READ (recv_io (''PING'' @ [CHR 0x0A])) one_client)))
     = Some (''PONG'' @ [CHR 0x0A])"
proof -
  let ?m = "[SockObj 0 \<mapsto> (EVENT_READ, NoData), SockObj 1 \<mapsto> (EVENT_READ, ClientData 1)]"
  have rd: "EVENT_READ AND EVENT_READ \<noteq> 0" and wr: "EVENT_WRITE AND EVENT_WRITE \<noteq> 0"
    by (simp_all add: EVENT_READ_def EVENT_WRITE_def)
  have es: "eol_ser one_client = [CHR 0x0D]" and ek: "eol_sock one_client = [CHR 0x0A]"
    and ser: "serial one_client \<noteq> None" and sl: "sel one_client = Some ?m"
    and q: "ser_queue one_client = []" and emp: "in_buf (bufs one_client 1) = []"
    and rx0: "dev_rx one_client = []" and ob0: "out_buf (bufs one_client 1) = []"
    by (simp_all add: one_client_def opened_server_def relay_server_def new_server_def)
  have c: "CHR 0x0A \<notin> set ''PING''" and p: "CHR 0x0D \<notin> set ''PONG''"
    by simp_all
  have un: "?m SerialObj = None"
    by simp
  have act: "cb_sock (bufs one_client 1) \<in> set (clients one_client) \<longrightarrow>
      ?m (SockObj (cb_sock (bufs one_client 1))) \<noteq> None"
    by (simp add: one_client_def opened_server_def relay_server_def new_server_def)
  have rc: "recv_r (recv_io (''PING'' @ [CHR 0x0A])) = Returns (''PING'' @ [CHR 0x0A])"
    by (simp add: recv_io_def)
  have w: "write_all (write_r (device_io [2, 0, 3] (''PONG'' @ [CHR 0x0D]))) (''PING'' @ [CHR 0x0D]) []
      = Some (None, ''PING'' @ [CHR 0x0D])"
    by (simp add: device_io_def)
  have fl: "flush_r (device_io [2, 0, 3] (''PONG'' @ [CHR 0x0D])) = Returns ()"
    and rdr: "read_r (device_io [2, 0, 3] (''PONG'' @ [CHR 0x0D])) = Returns (''PONG'' @ [CHR 0x0D])"
    by (simp_all add: device_io_def)
  from eol_round_trip [OF es ek c p rd wr emp q ser sl un act rc w fl rdr, of 1]
  obtain s1 s2 where
    "process_socket 1 (Some 1) EVENT_READ (recv_io (''PING'' @ [CHR 0x0A])) one_client = (None, s1)"
    and "process_serial EVENT_WRITE (device_io [2, 0, 3] (''PONG'' @ [CHR 0x0D])) s1 = Some (None, s2)"
    and "dev_rx s2 = dev_rx one_client @ ''PING'' @ [CHR 0x0D]"
    and "out_buf (bufs s2 1) = out_buf (bufs one_client 1) @ ''PONG'' @ [CHR 0x0A]"
    by blast
  with rx0 ob0 show ?thesis
    by simp
qed

section \<open>The queue and the registration of the device\<close>

lemma queue_inv_iff:
  "queue_inv s \<longleftrightarrow>
     (\<exists>m. sel s = Some m \<and> (ser_queue s = [] \<longrightarrow> m SerialObj = None) \<and>
          (ser_queue s \<noteq> [] \<longrightarrow> m SerialObj = Some (EVENT_WRITE, QueueData)))"
  by (auto simp: queue_inv_def split: option.splits)

lemma open_srv_queue_inv:
  assumes "\<not> opened s" and "open_srv io s = Some (None, s')"
  shows "queue_inv s'"
  using assms
  by (auto simp: open_srv_def sel_register_def queue_inv_iff Let_def
      split: list.splits option.splits sum.splits prod.splits if_splits outcome.splits)

lemma accept_client_queue_inv:
  "queue_inv s \<Longrightarrow> queue_inv (snd (accept_client io s))"
  by (auto simp: accept_client_def sel_register_def queue_inv_iff Let_def
      split: option.splits sum.splits outcome.splits)

lemma sel_unregister_sock_queue_inv:
  "queue_inv s \<Longrightarrow> sel_unregister (SockObj n) s = Inr s' \<Longrightarrow>
     queue_inv s' \<and> ser_queue s' = ser_queue s \<and> clients s' = clients s"
  by (auto simp: sel_unregister_def queue_inv_iff split: option.splits if_splits)

lemma queue_inv_frame:
  "queue_inv s \<Longrightarrow> sel s' = sel s \<Longrightarrow> ser_queue s' = ser_queue s \<Longrightarrow> queue_inv s'"
  by (simp add: queue_inv_iff)

lemma client_read_queue_inv:
  assumes inv: "queue_inv s"
  shows "queue_inv (snd (client_read sk r io s))"
proof (cases "recv_r io")
  case (Raises e)
  with inv show ?thesis by (simp add: client_read_def)
next
  case (Returns received)
  show ?thesis
  proof (cases "received = []")
    case True
    show ?thesis
    proof (cases "sel_unregister (SockObj sk) s")
      case (Inl e)
      with Returns True inv show ?thesis by (simp add: client_read_def)
    next
      case (Inr s1)
      from sel_unregister_sock_queue_inv [OF inv Inr] have inv1: "queue_inv s1"
        by simp
      have "queue_inv t" if "sel t = sel s1" "ser_queue t = ser_queue s1" for t
        using queue_inv_frame [OF inv1 that] .
      then show ?thesis
        using Returns True Inr inv1
        by (simp add: client_read_def Let_def split: option.splits)
    qed
  next
    case False
    from inv obtain m where m: "sel s = Some m"
      by (auto simp: queue_inv_iff split: option.splits)
    show ?thesis
    proof (cases "eol_sock s = []")
      case True
      with Returns False inv show ?thesis
        by (simp add: client_read_def bytes_split_def queue_inv_iff)
    next
      case ne: False
      let ?chunks = "split_from (eol_sock s) [] (in_buf (bufs s r) @ received)"
      show ?thesis
      proof (cases "butlast ?chunks = []")
        case True
        with Returns False ne inv show ?thesis
          by (simp add: client_read_def bytes_split_def queue_inv_iff Let_def)
      next
        case cmds: False
        show ?thesis
        proof (cases "ser_queue s = []")
          case True
          with inv m have "m SerialObj = None"
            by (auto simp: queue_inv_iff split: option.splits)
          with Returns False ne cmds True m show ?thesis
            by (cases "serial s")
              (simp_all add: client_read_def bytes_split_def queue_inv_iff Let_def
                sel_register_def submit_def)
        next
          case q: False
          with Returns False ne cmds inv show ?thesis
            by (simp add: client_read_def bytes_split_def queue_inv_iff Let_def submit_def
                split: option.splits)
        qed
      qed
    qed
  qed
qed

lemma client_write_queue_inv:
  "queue_inv s \<Longrightarrow> queue_inv (snd (client_write sk r io s))"
  by (auto simp: client_write_def sel_modify_def queue_inv_iff Let_def
      split: option.splits sum.splits outcome.splits)

lemma process_socket_queue_inv:
  "queue_inv s \<Longrightarrow> queue_inv (snd (process_socket sk data msk io s))"
  by (simp add: process_socket_def accept_client_queue_inv client_read_queue_inv
      client_write_queue_inv split: option.splits)

lemma deliver_queue_inv:
  "queue_inv s \<Longrightarrow> queue_inv (snd (deliver r io s))"
  by (auto simp: deliver_def sel_modify_def queue_inv_iff Let_def
      split: option.splits sum.splits outcome.splits)

lemma process_serial_queue_inv:
  assumes inv: "queue_inv s" and ps: "process_serial msk io s = Some (res, s')"
  shows "queue_inv s'"
proof (cases "msk AND EVENT_WRITE \<noteq> 0")
  case False
  with ps inv show ?thesis by (simp add: process_serial_def)
next
  case True
  show ?thesis
  proof (cases "ser_queue s")
    case Nil
    with True ps inv show ?thesis by (simp add: process_serial_def)
  next
    case (Cons c rest)
    obtain cmd r where c: "c = (cmd, r)"
      by (cases c)
    from inv Cons obtain m where m: "sel s = Some m" "m SerialObj = Some (EVENT_WRITE, QueueData)"
      by (auto simp: queue_inv_iff split: option.splits)
    define s2 where "s2 = (if rest = [] then s\<lparr>ser_queue := rest, sel := Some (m(SerialObj := None))\<rparr>
        else s\<lparr>ser_queue := rest\<rparr>)"
    have un: "(if rest = [] then sel_unregister SerialObj (s\<lparr>ser_queue := rest\<rparr>)
        else Inr (s\<lparr>ser_queue := rest\<rparr>)) = Inr s2"
      using m by (simp add: s2_def sel_unregister_def)
    have inv2: "queue_inv s2"
      using m by (simp add: s2_def queue_inv_iff)
    have inv3: "queue_inv (s2\<lparr>txns := txns s2 @ [(cmd, r)], dev_rx := dev_rx s2 @ w\<rparr>)" for w
      using inv2 by (simp add: queue_inv_iff)
    show ?thesis
    proof (cases "write_all (write_r io) (cmd @ eol_ser s2) []")
      case None
      with ps True Cons c un show ?thesis
        by (simp add: process_serial_def Let_def)
    next
      case (Some p)
      obtain eo written where p: "p = (eo, written)"
        by (cases p)
      show ?thesis
      proof (cases eo)
        case None
        with ps True Cons c un Some p
        have "s' = snd (deliver r io (s2\<lparr>txns := txns s2 @ [(cmd, r)], dev_rx := dev_rx s2 @ written\<rparr>))"
          by (simp add: process_serial_def Let_def)
        with deliver_queue_inv [OF inv3] show ?thesis
          by simp
      next
        case (Some e)
        with ps True Cons c un \<open>write_all (write_r io) (cmd @ eol_ser s2) [] = Some p\<close> p
        have "s' = s2\<lparr>txns := txns s2 @ [(cmd, r)], dev_rx := dev_rx s2 @ written\<rparr>"
          by (simp add: process_serial_def Let_def)
        with inv3 show ?thesis
          by simp
      qed
    qed
  qed
qed

lemma reachable_queue_inv: "reachable s \<Longrightarrow> queue_inv s"
proof (induction rule: reachable.induct)
  case (fresh s io s')
  then show ?case by (rule open_srv_queue_inv)
next
  case (socket s sk data msk io res s')
  from process_socket_queue_inv [OF socket.IH, of sk data msk io] socket.hyps(2)
  show ?case by simp
next
  case (serial s msk dio res s')
  then show ?case by (blast intro: process_serial_queue_inv)
qed

lemma opened_server_opened: "open_srv open_ok relay_server = Some (None, opened_server)"
  by (simp add: open_srv_def open_ok_def relay_server_def new_server_def opened_server_def
      port_ok_def sel_register_def float_add_def)

lemma pending_server_read:
  "process_socket 1 (Some 1) EVENT_READ (recv_io (''PING'' @ [CHR 0x0A])) one_client =
     (None, pending_server)"
  by (simp add: process_socket_def client_read_def recv_io_def one_client_def opened_server_def
      relay_server_def new_server_def bytes_split_def sel_register_def submit_def pending_server_def
      port_ok_def EVENT_READ_def Let_def fun_eq_iff)

lemma departed_server_eof:
  "process_socket 1 (Some 1) EVENT_READ (recv_io []) pending_server = (None, departed_server)"
  by (simp add: process_socket_def client_read_def recv_io_def one_client_def opened_server_def
      relay_server_def new_server_def sel_unregister_def pending_server_def departed_server_def
      port_ok_def EVENT_READ_def Let_def fun_eq_iff)

lemma reachable_opened_server: "reachable opened_server"
  by (rule reachable.fresh [OF _ opened_server_opened]) (simp add: relay_server_def new_server_def)

lemma reachable_one_client: "reachable one_client"
  by (rule reachable.socket [OF reachable_opened_server one_client_accepted])

lemma reachable_pending_server: "reachable pending_server"
  by (rule reachable.socket [OF reachable_one_client pending_server_read])

lemma reachable_departed_server: "reachable departed_server"
  by (rule reachable.socket [OF reachable_pending_server departed_server_eof])

text \<open>
  Claim C2. In every state reachable from a freshly opened server by calls of
  \<^verbatim>\<open>process_socket\<close> and \<^verbatim>\<open>process_serial\<close>, the serial device is registered with
  the selector for write readiness if and only if \<^verbatim>\<open>ser_queue\<close> is not empty.
\<close>

theorem armed_iff_pending: "reachable s \<Longrightarrow> write_armed s \<longleftrightarrow> ser_queue s \<noteq> []"
proof -
  assume "reachable s"
  then have "queue_inv s" by (rule reachable_queue_inv)
  then show ?thesis
    by (auto simp: queue_inv_iff write_armed_def EVENT_WRITE_def split: option.splits)
qed

theorem armed_iff_pending_witness:
  "reachable pending_server \<and> ser_queue pending_server \<noteq> [] \<and> write_armed pending_server \<and>
   reachable one_client \<and> ser_queue one_client = [] \<and> \<not> write_armed one_client"
proof -
  have "ser_queue pending_server \<noteq> []" "ser_queue one_client = []"
    by (simp_all add: pending_server_def one_client_def opened_server_def relay_server_def
        new_server_def)
  with armed_iff_pending [OF reachable_pending_server] armed_iff_pending [OF reachable_one_client]
    reachable_pending_server reachable_one_client
  show ?thesis by simp
qed

section \<open>A reply for a client that has gone\<close>

lemma write_all_raises:
  "write_all ws q acc = Some (Some e, w) \<Longrightarrow> Raises e \<in> set ws"
  by (induction ws q acc rule: write_all.induct) auto

lemma deliver_departed:
  assumes gone: "cb_sock (bufs s r) \<notin> set (clients s)"
  shows "(case fst (deliver r io s) of
            None \<Rightarrow> True
          | Some e \<Rightarrow> flush_r io = Raises e \<or> read_r io = Raises e) \<and>
     sel (snd (deliver r io s)) = sel s \<and> sock_tx (snd (deliver r io s)) = sock_tx s \<and>
     clients (snd (deliver r io s)) = clients s"
  using gone by (auto simp: deliver_def Let_def split: outcome.splits)

text \<open>
  Claim C6. The command at the head of the queue belongs to a client whose socket is
  no longer in the set of clients (it disconnected after the command was queued).
  Then \<^verbatim>\<open>process_serial\<close> raises nothing of its own, the only exceptions that can
  escape being those of the device calls; the registration of every socket with the
  selector is as before; and no byte is sent on any socket. The reply ends in the
  outbound buffer of the departed client, which nothing sends any more.
\<close>

theorem reply_after_disconnect:
  assumes rs: "reachable s"
    and q: "ser_queue s = (cmd, r) # rest"
    and gone: "cb_sock (bufs s r) \<notin> set (clients s)"
    and ps: "process_serial msk io s = Some (res, s')"
  shows "(case res of
            None \<Rightarrow> True
          | Some e \<Rightarrow>
              Raises e \<in> set (write_r io) \<or> flush_r io = Raises e \<or> read_r io = Raises e) \<and>
         (\<exists>m m'. sel s = Some m \<and> sel s' = Some m' \<and> (\<forall>n. m' (SockObj n) = m (SockObj n))) \<and>
         sock_tx s' = sock_tx s \<and> clients s' = clients s"
proof (cases "msk AND EVENT_WRITE \<noteq> 0")
  case False
  from rs have "queue_inv s" by (rule reachable_queue_inv)
  then obtain m where "sel s = Some m" by (auto simp: queue_inv_iff)
  with False ps show ?thesis by (simp add: process_serial_def)
next
  case True
  from rs have "queue_inv s" by (rule reachable_queue_inv)
  with q obtain m where m: "sel s = Some m" "m SerialObj = Some (EVENT_WRITE, QueueData)"
    by (auto simp: queue_inv_iff)
  define s2 where "s2 = (if rest = [] then s\<lparr>ser_queue := rest, sel := Some (m(SerialObj := None))\<rparr>
      else s\<lparr>ser_queue := rest\<rparr>)"
  have un: "(if rest = [] then sel_unregister SerialObj (s\<lparr>ser_queue := rest\<rparr>)
      else Inr (s\<lparr>ser_queue := rest\<rparr>)) = Inr s2"
    using m by (simp add: s2_def sel_unregister_def)
  have "\<exists>m2. sel s2 = Some m2 \<and> (\<forall>n. m2 (SockObj n) = m (SockObj n))"
    using m by (auto simp: s2_def)
  then obtain m2 where m2: "sel s2 = Some m2" "\<forall>n. m2 (SockObj n) = m (SockObj n)"
    by blast
  have fr2: "sock_tx s2 = sock_tx s" "clients s2 = clients s" "bufs s2 = bufs s"
    by (simp_all add: s2_def)
  let ?s3 = "\<lambda>w. s2\<lparr>txns := txns s2 @ [(cmd, r)], dev_rx := dev_rx s2 @ w\<rparr>"
  show ?thesis
  proof (cases "write_all (write_r io) (cmd @ eol_ser s2) []")
    case None
    with ps True q un show ?thesis
      by (simp add: process_serial_def Let_def)
  next
    case (Some p)
    obtain eo written where p: "p = (eo, written)"
      by (cases p)
    show ?thesis
    proof (cases eo)
      case None
      with ps True q un Some p
      have d: "deliver r io (?s3 written) = (res, s')"
        by (simp add: process_serial_def Let_def)
      have "cb_sock (bufs (?s3 written) r) \<notin> set (clients (?s3 written))"
        using gone fr2 by simp
      from deliver_departed [OF this, of io] d m m2 fr2 show ?thesis
        by (auto split: option.splits)
    next
      case (Some e)
      with \<open>write_all (write_r io) (cmd @ eol_ser s2) [] = Some p\<close> p
      have w: "write_all (write_r io) (cmd @ eol_ser s2) [] = Some (Some e, written)"
        by simp
      with ps True q un have "res = Some e" "s' = ?s3 written"
        by (simp_all add: process_serial_def Let_def)
      with write_all_raises [OF w] m m2 fr2 show ?thesis
        by simp
    qed
  qed
qed

theorem reply_after_disconnect_witness:
  "ser_queue departed_server = [(''PING'', 1)] \<and> 1 \<notin> set (clients departed_server) \<and>
   1 \<in> closed_socks departed_server \<and>
   map_option fst
     (process_serial EVENT_WRITE (device_io [5] (''PONG'' @ [CHR 0x0D])) departed_server) = Some None \<and>
   map_option (sel \<circ> snd)
     (process_serial EVENT_WRITE (device_io [5] (''PONG'' @ [CHR 0x0D])) departed_server) =
     Some (Some [SockObj 0 \<mapsto> (EVENT_READ, NoData)]) \<and>
   map_option ((\<lambda>t. sock_tx t 1) \<circ> snd)
     (process_serial EVENT_WRITE (device_io [5] (''PONG'' @ [CHR 0x0D])) departed_server) = Some []"
proof -
  let ?io = "device_io [5] (''PONG'' @ [CHR 0x0D])"
  have q: "ser_queue departed_server = (''PING'', 1) # []"
    and gone: "cb_sock (bufs departed_server 1) \<notin> set (clients departed_server)"
    and cl: "1 \<in> closed_socks departed_server" "1 \<notin> set (clients departed_server)"
    and tx: "sock_tx departed_server 1 = []"
    and sl: "sel departed_server =
        Some [SockObj 0 \<mapsto> (EVENT_READ, NoData), SerialObj \<mapsto> (EVENT_WRITE, QueueData)]"
    by (simp_all add: departed_server_def pending_server_def one_client_def opened_server_def
        relay_server_def new_server_def)
  have "process_serial EVENT_WRITE ?io departed_server \<noteq> None"
    by (simp add: process_serial_def device_io_def departed_server_def pending_server_def
        one_client_def opened_server_def relay_server_def new_server_def EVENT_WRITE_def
        sel_unregister_def Let_def)
  then obtain res s' where ps: "process_serial EVENT_WRITE ?io departed_server = Some (res, s')"
    by auto
  have noraise: "Raises e \<notin> set (write_r ?io)" "flush_r ?io \<noteq> Raises e" "read_r ?io \<noteq> Raises e" for e
    by (simp_all add: device_io_def)
  from reply_after_disconnect [OF reachable_departed_server q gone ps] noraise
  have "res = None" and "sock_tx s' = sock_tx departed_server"
    and "\<exists>m m'. sel departed_server = Some m \<and> sel s' = Some m' \<and> (\<forall>n. m' (SockObj n) = m (SockObj n))"
    by (cases res, auto)+
  moreover have "sel s' = Some [SockObj 0 \<mapsto> (EVENT_READ, NoData)]"
    using ps
    by (simp add: process_serial_def device_io_def departed_server_def pending_server_def
        one_client_def opened_server_def relay_server_def new_server_def EVENT_WRITE_def
        sel_unregister_def deliver_def bytes_replace_def Let_def fun_eq_iff) auto
  ultimately show ?thesis
    using q cl tx ps by simp
qed

section \<open>The order of the device transactions\<close>

lemma wire_append: "wire es (T1 @ T2) = wire es T1 @ wire es T2"
  by (simp add: wire_def)

lemma wire_butlast_length: "length (wire es (butlast T)) \<le> length (wire es T)"
proof (cases "T = []")
  case True
  then show ?thesis by simp
next
  case False
  then have "wire es T = wire es (butlast T) @ wire es [last T]"
    using wire_append [of es "butlast T" "[last T]"] by simp
  then show ?thesis by simp
qed

lemma fifo_rel_frame:
  assumes "txns s' = txns s" and "enq s' = enq s" and "ser_queue s' = ser_queue s"
    and "dev_rx s' = dev_rx s" and "eol_ser s' = eol_ser s" and "replies s' = replies s"
  shows "fifo_rel full s s'"
  unfolding fifo_rel_def using assms
  by (intro conjI exI [of _ "[]"] exI [of _ 0]) (simp_all add: wire_def)

lemma fifo_rel_refl: "fifo_rel full s s"
  by (rule fifo_rel_frame) simp_all

lemma fifo_rel_then_frame:
  assumes "fifo_rel full s t" and "txns u = txns t" and "enq u = enq t"
    and "ser_queue u = ser_queue t" and "dev_rx u = dev_rx t" and "eol_ser u = eol_ser t"
    and "replies u = replies t"
  shows "fifo_rel full s u"
  using assms by (simp add: fifo_rel_def)

lemma fifo_rel_trans:
  assumes st: "fifo_rel True s t" and tu: "fifo_rel full t u"
  shows "fifo_rel full s u"
proof -
  let ?es = "eol_ser s"
  from st obtain T1 E1 k1 R1 where 1: "txns t = txns s @ T1" "enq t = enq s @ E1"
    "ser_queue s @ E1 = T1 @ ser_queue t" "dev_rx t = dev_rx s @ take k1 (wire ?es T1)"
    "length (wire ?es T1) \<le> k1" "replies t = replies s @ R1"
    "map fst R1 = map snd (take (length R1) T1)" "length R1 = length T1"
    and es1: "eol_ser t = ?es"
    by (auto simp: fifo_rel_def)
  from tu es1 obtain T2 E2 k2 R2 where 2: "txns u = txns t @ T2" "enq u = enq t @ E2"
    "ser_queue t @ E2 = T2 @ ser_queue u" "dev_rx u = dev_rx t @ take k2 (wire ?es T2)"
    "length (wire ?es (butlast T2)) \<le> k2" "replies u = replies t @ R2"
    "map fst R2 = map snd (take (length R2) T2)" "length T2 \<le> Suc (length R2)"
    "full \<longrightarrow> length (wire ?es T2) \<le> k2 \<and> length R2 = length T2"
    and es2: "eol_ser u = ?es"
    by (auto simp: fifo_rel_def)
  let ?k = "length (wire ?es T1) + k2"
  have q: "ser_queue s @ (E1 @ E2) = (T1 @ T2) @ ser_queue u"
    using 1(3) 2(3) by (metis append.assoc)
  have rx: "dev_rx u = dev_rx s @ take ?k (wire ?es (T1 @ T2))"
    using 1(4,5) 2(4) by (simp add: wire_append)
  have bl: "length (wire ?es (butlast (T1 @ T2))) \<le> ?k"
  proof (cases "T2 = []")
    case True
    then show ?thesis
      using wire_butlast_length [of ?es T1] by simp
  next
    case False
    then show ?thesis
      using 2(5) by (simp add: butlast_append wire_append)
  qed
  have rp: "map fst (R1 @ R2) = map snd (take (length (R1 @ R2)) (T1 @ T2))"
    using 1(7,8) 2(7) by simp
  have ln: "length (T1 @ T2) \<le> Suc (length (R1 @ R2))"
    using 1(8) 2(8) by simp
  have fl: "full \<longrightarrow> length (wire ?es (T1 @ T2)) \<le> ?k \<and> length (R1 @ R2) = length (T1 @ T2)"
    using 1(8) 2(9) by (simp add: wire_append)
  show ?thesis
    unfolding fifo_rel_def using 1(1,2,6) 2(1,2,6) q rx bl rp ln fl es2
    by (intro conjI exI [of _ "T1 @ T2"] exI [of _ "E1 @ E2"] exI [of _ ?k]
        exI [of _ "R1 @ R2"]) simp_all
qed

lemma sel_register_Inr:
  "sel_register f ev d s = Inr s' \<Longrightarrow> \<exists>m. sel s = Some m \<and> s' = s\<lparr>sel := Some (m(f \<mapsto> (ev, d)))\<rparr>"
  by (auto simp: sel_register_def split: option.splits if_splits)

lemma sel_unregister_Inr:
  "sel_unregister f s = Inr s' \<Longrightarrow> \<exists>m. sel s = Some m \<and> s' = s\<lparr>sel := Some (m(f := None))\<rparr>"
  by (auto simp: sel_unregister_def split: option.splits if_splits)

lemma sel_modify_Inr:
  "sel_modify f ev d s = Inr s' \<Longrightarrow> \<exists>m. sel s = Some m \<and> s' = s\<lparr>sel := Some (m(f \<mapsto> (ev, d)))\<rparr>"
  by (auto simp: sel_modify_def split: option.splits if_splits)

lemma accept_client_fifo: "fifo_rel full s (snd (accept_client io s))"
  by (auto simp: accept_client_def Let_def intro!: fifo_rel_frame dest!: sel_register_Inr
      split: outcome.splits sum.splits)

lemma client_write_fifo: "fifo_rel full s (snd (client_write sk r io s))"
  by (auto simp: client_write_def Let_def intro!: fifo_rel_frame dest!: sel_modify_Inr
      split: outcome.splits sum.splits)

lemma submit_fifo:
  assumes "txns t = txns s" and "enq t = enq s" and "ser_queue t = ser_queue s"
    and "dev_rx t = dev_rx s" and "eol_ser t = eol_ser s" and "replies t = replies s"
  shows "fifo_rel full s (submit cmds r t)"
  unfolding fifo_rel_def submit_def using assms
  by (intro conjI exI [of _ "[]"] exI [of _ "map (\<lambda>cmd. (cmd, r)) cmds"] exI [of _ 0])
    (simp_all add: wire_def)

lemma client_read_fifo: "fifo_rel full s (snd (client_read sk r io s))"
proof (cases "recv_r io")
  case (Raises e)
  then show ?thesis by (simp add: client_read_def fifo_rel_refl)
next
  case (Returns received)
  show ?thesis
  proof (cases "received = []")
    case True
    with Returns show ?thesis
      by (auto simp: client_read_def Let_def intro!: fifo_rel_frame dest!: sel_unregister_Inr
          split: sum.splits option.splits)
  next
    case False
    show ?thesis
    proof (cases "eol_sock s = []")
      case True
      with Returns False show ?thesis
        by (simp add: client_read_def bytes_split_def fifo_rel_frame)
    next
      case ne: False
      with Returns False show ?thesis
        by (auto simp: client_read_def bytes_split_def Let_def
            intro!: fifo_rel_frame submit_fifo dest!: sel_register_Inr
            split: sum.splits option.splits)
    qed
  qed
qed

lemma process_socket_fifo: "fifo_rel full s (snd (process_socket sk data msk io s))"
  by (simp add: process_socket_def accept_client_fifo client_read_fifo client_write_fifo
      fifo_rel_refl split: option.splits)

lemma deliver_frame:
  "txns (snd (deliver r io s)) = txns s \<and> enq (snd (deliver r io s)) = enq s \<and>
   ser_queue (snd (deliver r io s)) = ser_queue s \<and> dev_rx (snd (deliver r io s)) = dev_rx s \<and>
   eol_ser (snd (deliver r io s)) = eol_ser s"
  by (auto simp: deliver_def Let_def dest!: sel_modify_Inr split: outcome.splits sum.splits)

text \<open>
  \<^verbatim>\<open>deliver\<close> hands over at most one reply, to the buffers object it was called for,
  and exactly one if it raises nothing.
\<close>

lemma deliver_replies:
  "\<exists>R. replies (snd (deliver r io s)) = replies s @ R \<and> map fst R = take (length R) [r] \<and>
       (fst (deliver r io s) = None \<longrightarrow> length R = 1)"
proof (cases "fst (deliver r io s) = None")
  case True
  then have "\<exists>b. replies (snd (deliver r io s)) = replies s @ [(r, b)]"
    by (auto simp: deliver_def Let_def dest!: sel_modify_Inr
        split: outcome.splits sum.splits if_splits)
  then obtain b where "replies (snd (deliver r io s)) = replies s @ [(r, b)]"
    by blast
  then show ?thesis
    by (intro exI [of _ "[(r, b)]"]) simp
next
  case False
  then have "replies (snd (deliver r io s)) = replies s"
    by (auto simp: deliver_def Let_def split: outcome.splits sum.splits if_splits)
  with False show ?thesis
    by (intro exI [of _ "[]"]) simp
qed

lemma write_all_prefix:
  "write_all ws q acc = Some (eo, w) \<Longrightarrow> \<exists>k. w = acc @ take k q"
proof (induction ws q acc rule: write_all.induct)
  case (1 ws acc)
  then show ?case by simp
next
  case (2 q qs acc)
  then show ?case by simp
next
  case (3 e ws q qs acc)
  then have "w = acc @ take 0 (q # qs)" by simp
  then show ?case by blast
next
  case (4 n ws q qs acc)
  from "4.prems" have "write_all ws (drop n (q # qs)) (acc @ take n (q # qs)) = Some (eo, w)"
    by simp
  from "4.IH" [OF this] obtain k
    where "w = (acc @ take n (q # qs)) @ take k (drop n (q # qs))"
    by blast
  then have "w = acc @ take (n + k) (q # qs)"
    by (simp add: take_add)
  then show ?case by blast
qed

text \<open>
  One call of \<^verbatim>\<open>process_serial\<close> while the device is registered: nothing happens, or
  the head of the queue is popped, its transaction started and its query written, all
  of it unless a write raised.
\<close>

lemma process_serial_fifo:
  assumes reg: "ser_reg s" and ps: "process_serial msk io s = Some (res, s')"
  shows "fifo_rel (res = None) s s'"
proof (cases "msk AND EVENT_WRITE \<noteq> 0")
  case False
  with ps show ?thesis by (simp add: process_serial_def fifo_rel_refl)
next
  case True
  show ?thesis
  proof (cases "ser_queue s")
    case Nil
    with True ps show ?thesis by (simp add: process_serial_def fifo_rel_refl)
  next
    case (Cons c rest)
    obtain cmd r where c: "c = (cmd, r)"
      by (cases c)
    from reg obtain m v where m: "sel s = Some m" "m SerialObj = Some v"
      by (auto simp: ser_reg_def split: option.splits)
    define s2 where "s2 = (if rest = [] then s\<lparr>ser_queue := rest, sel := Some (m(SerialObj := None))\<rparr>
        else s\<lparr>ser_queue := rest\<rparr>)"
    have un: "(if rest = [] then sel_unregister SerialObj (s\<lparr>ser_queue := rest\<rparr>)
        else Inr (s\<lparr>ser_queue := rest\<rparr>)) = Inr s2"
      using m by (simp add: s2_def sel_unregister_def)
    let ?s3 = "\<lambda>w. s2\<lparr>txns := txns s2 @ [(cmd, r)], dev_rx := dev_rx s2 @ w\<rparr>"
    have f3: "txns (?s3 w) = txns s @ [(cmd, r)]" "enq (?s3 w) = enq s" "ser_queue (?s3 w) = rest"
      "dev_rx (?s3 w) = dev_rx s @ w" "eol_ser (?s3 w) = eol_ser s" "replies (?s3 w) = replies s"
      for w
      by (simp_all add: s2_def)
    have es2: "eol_ser s2 = eol_ser s"
      by (simp add: s2_def)
    have goal: "fifo_rel full s t"
      if "txns t = txns (?s3 w)" "enq t = enq (?s3 w)" "ser_queue t = ser_queue (?s3 w)"
        "dev_rx t = dev_rx (?s3 w)" "eol_ser t = eol_ser (?s3 w)"
        "w = take k (cmd @ eol_ser s)" "replies t = replies (?s3 w) @ R"
        "map fst R = take (length R) [r]"
        "full \<longrightarrow> length (cmd @ eol_ser s) \<le> k \<and> length R = 1"
      for t w k R full
      unfolding fifo_rel_def using that f3 [of w] Cons c
      by (intro conjI exI [of _ "[(cmd, r)]"] exI [of _ "[]"] exI [of _ k] exI [of _ R])
        (auto simp: wire_def take_Cons' split: if_splits)
    show ?thesis
    proof (cases "write_all (write_r io) (cmd @ eol_ser s2) []")
      case None
      with ps True Cons c un show ?thesis
        by (simp add: process_serial_def Let_def)
    next
      case (Some p)
      obtain eo written where p: "p = (eo, written)"
        by (cases p)
      with Some have w: "write_all (write_r io) (cmd @ eol_ser s2) [] = Some (eo, written)"
        by simp
      show ?thesis
      proof (cases eo)
        case None
        with w have "written = cmd @ eol_ser s2"
          using write_all_complete [of "write_r io" "cmd @ eol_ser s2" "[]" written] by simp
        with es2 have wr: "written = take (length (cmd @ eol_ser s)) (cmd @ eol_ser s)"
          by simp
        from None ps True Cons c un w
        have d: "deliver r io (?s3 written) = (res, s')"
          by (simp add: process_serial_def Let_def)
        from deliver_replies [of r io "?s3 written"] d obtain R
          where R: "replies s' = replies (?s3 written) @ R" "map fst R = take (length R) [r]"
            "res = None \<longrightarrow> length R = 1"
          by auto
        from d deliver_frame [of r io "?s3 written"]
        have fr: "txns s' = txns (?s3 written)" "enq s' = enq (?s3 written)"
          "ser_queue s' = ser_queue (?s3 written)" "dev_rx s' = dev_rx (?s3 written)"
          "eol_ser s' = eol_ser (?s3 written)"
          by simp_all
        show ?thesis
          by (rule goal [OF fr wr R(1,2)]) (use R(3) in simp)
      next
        case (Some e)
        from write_all_prefix [OF w] es2 obtain k where wr: "written = take k (cmd @ eol_ser s)"
          by auto
        from Some ps True Cons c un w
        have s': "s' = ?s3 written" and res: "res = Some e"
          by (simp_all add: process_serial_def Let_def)
        have "fifo_rel False s s'"
          by (rule goal [of s' written k "[]"]) (simp_all add: s' wr)
        with res show ?thesis
          by simp
      qed
    qed
  qed
qed

lemma accept_client_ser_reg: "ser_reg s \<Longrightarrow> ser_reg (snd (accept_client io s))"
  by (auto simp: accept_client_def Let_def ser_reg_def sel_register_def
      split: outcome.splits option.splits)

lemma client_write_ser_reg: "ser_reg s \<Longrightarrow> ser_reg (snd (client_write sk r io s))"
  by (auto simp: client_write_def Let_def ser_reg_def sel_modify_def
      split: outcome.splits option.splits)

lemma client_read_ser_reg:
  assumes reg: "ser_reg s"
  shows "ser_reg (snd (client_read sk r io s))"
proof -
  from reg obtain m v where m: "sel s = Some m" "m SerialObj = Some v"
    by (auto simp: ser_reg_def split: option.splits)
  show ?thesis
  proof (cases "recv_r io")
    case (Raises e)
    with reg show ?thesis by (simp add: client_read_def)
  next
    case (Returns received)
    show ?thesis
    proof (cases "received = []")
      case True
      with Returns m show ?thesis
        by (auto simp: client_read_def Let_def ser_reg_def sel_unregister_def
            split: option.splits)
    next
      case False
      with Returns m show ?thesis
        by (auto simp: client_read_def bytes_split_def Let_def ser_reg_def sel_register_def
            submit_def split: option.splits)
    qed
  qed
qed

lemma process_socket_ser_reg: "ser_reg s \<Longrightarrow> ser_reg (snd (process_socket sk data msk io s))"
  by (simp add: process_socket_def accept_client_ser_reg client_read_ser_reg
      client_write_ser_reg split: option.splits)

lemma stop_frame:
  "sel (stop s) = sel s \<and> txns (stop s) = txns s \<and> enq (stop s) = enq s \<and>
   ser_queue (stop s) = ser_queue s \<and> dev_rx (stop s) = dev_rx s \<and>
   eol_ser (stop s) = eol_ser s \<and> replies (stop s) = replies s"
  by (simp add: stop_def)

lemma reported_Some:
  assumes "reported m seen i = Some (f, msk, d)"
  shows "input_obj i = Some f \<and> f \<notin> set seen \<and> (\<exists>ev. m f = Some (ev, d))"
  using assms by (auto simp: reported_def split: option.splits if_splits)

text \<open>
  The dispatch of one reported event. The device is reported only if it was registered
  when \<^verbatim>\<open>select\<close> was called and has not been handled in this batch; no socket handler
  unregisters it, so it is still registered when its handler runs.
\<close>

lemma dispatch_fifo:
  assumes rep: "reported m seen i = Some (f, msk, d)"
    and dis: "dispatch i msk d s = Some (r1, s1)"
    and reg: "m SerialObj \<noteq> None \<Longrightarrow> SerialObj \<notin> set seen \<Longrightarrow> ser_reg s"
  shows "fifo_rel (r1 = None) s s1 \<and>
         (m SerialObj \<noteq> None \<longrightarrow> SerialObj \<notin> set (f # seen) \<longrightarrow> ser_reg s1)"
proof (cases i)
  case Stop
  with rep show ?thesis by (simp add: reported_def)
next
  case (SockReady n rdy io)
  with reported_Some [OF rep] have f: "f = SockObj n"
    by simp
  show ?thesis
  proof (cases d)
    case QueueData
    with dis SockReady f reg show ?thesis
      by (auto simp: fifo_rel_refl)
  next
    case NoData
    with dis SockReady have "s1 = snd (process_socket n None msk io s)"
      by auto
    with f reg show ?thesis
      by (auto simp: process_socket_fifo process_socket_ser_reg)
  next
    case (ClientData r)
    with dis SockReady have "s1 = snd (process_socket n (Some r) msk io s)"
      by auto
    with f reg show ?thesis
      by (auto simp: process_socket_fifo process_socket_ser_reg)
  qed
next
  case (SerReady rdy io)
  with reported_Some [OF rep] have f: "f = SerialObj" and "SerialObj \<notin> set seen"
    and "m SerialObj \<noteq> None"
    by auto
  then have r: "ser_reg s"
    using reg by simp
  show ?thesis
  proof (cases d)
    case QueueData
    with dis SerReady have "process_serial msk io s = Some (r1, s1)"
      by simp
    from process_serial_fifo [OF r this] f show ?thesis
      by simp
  next
    case NoData
    with dis SerReady f show ?thesis
      by (auto simp: fifo_rel_refl)
  next
    case (ClientData x)
    with dis SerReady f show ?thesis
      by (auto simp: fifo_rel_refl)
  qed
qed

lemma run_batch_step:
  "i \<noteq> Stop \<Longrightarrow> run_batch m seen (i # is) s =
     (case reported m seen i of
        None \<Rightarrow> run_batch m seen is s
      | Some (f, msk, d) \<Rightarrow>
          (if shutdown_request s then Some (None, s)
           else
             (case dispatch i msk d s of
                None \<Rightarrow> None
              | Some (Some e, s1) \<Rightarrow> Some (Some e, s1)
              | Some (None, s1) \<Rightarrow> run_batch m (f # seen) is s1)))"
  by (cases i) auto

lemma run_batch_fifo:
  assumes "run_batch m seen b s = Some (res, s')"
    and "m SerialObj \<noteq> None \<Longrightarrow> SerialObj \<notin> set seen \<Longrightarrow> ser_reg s"
  shows "fifo_rel (res = None) s s'"
  using assms
proof (induction b arbitrary: seen s)
  case Nil
  then show ?case by (simp add: fifo_rel_refl)
next
  case (Cons i "is")
  show ?case
  proof (cases "i = Stop")
    case True
    with Cons.prems(1) have run: "run_batch m seen is (stop s) = Some (res, s')"
      by simp
    have "ser_reg (stop s) = ser_reg s"
      by (simp add: ser_reg_def stop_frame)
    with Cons.prems(2) have "m SerialObj \<noteq> None \<Longrightarrow> SerialObj \<notin> set seen \<Longrightarrow> ser_reg (stop s)"
      by simp
    from Cons.IH [OF run this] have "fifo_rel (res = None) (stop s) s'"
      by simp
    moreover have "fifo_rel True s (stop s)"
      by (simp add: fifo_rel_frame stop_frame)
    ultimately show ?thesis
      by (blast intro: fifo_rel_trans)
  next
    case False
    note step = run_batch_step [OF False, of m seen "is" s]
    show ?thesis
    proof (cases "reported m seen i")
      case None
      with step Cons.prems(1) have "run_batch m seen is s = Some (res, s')"
        by simp
      from Cons.IH [OF this Cons.prems(2)] show ?thesis
        by simp
    next
      case (Some p)
      obtain f msk d where p: "p = (f, msk, d)"
        by (cases p)
      show ?thesis
      proof (cases "shutdown_request s")
        case True
        with step Some p Cons.prems(1) show ?thesis
          by (auto simp: fifo_rel_refl)
      next
        case running: False
        show ?thesis
        proof (cases "dispatch i msk d s")
          case None
          with step Some p running Cons.prems(1) show ?thesis
            by simp
        next
          case (Some q)
          obtain r1 s1 where q: "q = (r1, s1)"
            by (cases q)
          from \<open>reported m seen i = Some p\<close> p have rep: "reported m seen i = Some (f, msk, d)"
            by simp
          from Some q have dis: "dispatch i msk d s = Some (r1, s1)"
            by simp
          from dispatch_fifo [OF rep dis Cons.prems(2)]
          have f1: "fifo_rel (r1 = None) s s1"
            and reg1: "m SerialObj \<noteq> None \<Longrightarrow> SerialObj \<notin> set (f # seen) \<Longrightarrow> ser_reg s1"
            by simp_all
          show ?thesis
          proof (cases r1)
            case None
            with step rep dis running Cons.prems(1)
            have "run_batch m (f # seen) is s1 = Some (res, s')"
              by simp
            from Cons.IH [OF this reg1] have "fifo_rel (res = None) s1 s'"
              by simp
            with f1 None show ?thesis
              by (auto intro: fifo_rel_trans)
          next
            case (Some e)
            with step rep dis running Cons.prems(1) have "s' = s1" "res = Some e"
              by simp_all
            with f1 Some show ?thesis
              by simp
          qed
        qed
      qed
    qed
  qed
qed

lemma serve_loop_fifo:
  "serve_loop bs s = Some (res, s') \<Longrightarrow> fifo_rel (res = None) s s'"
proof (induction bs arbitrary: s)
  case Nil
  then show ?case by (auto simp: fifo_rel_refl split: if_splits)
next
  case (Cons b bs)
  show ?case
  proof (cases "shutdown_request s")
    case True
    with Cons.prems show ?thesis by (auto simp: fifo_rel_refl)
  next
    case running: False
    show ?thesis
    proof (cases "sel s")
      case None
      with running Cons.prems show ?thesis by (auto simp: fifo_rel_refl)
    next
      case (Some m)
      have reg: "m SerialObj \<noteq> None \<Longrightarrow> SerialObj \<notin> set [] \<Longrightarrow> ser_reg s"
        using Some by (simp add: ser_reg_def)
      show ?thesis
      proof (cases "run_batch m [] b s")
        case None
        with running Some Cons.prems show ?thesis by simp
      next
        case batch: (Some q)
        obtain r1 s1 where q: "q = (r1, s1)"
          by (cases q)
        with batch have rb: "run_batch m [] b s = Some (r1, s1)"
          by simp
        from run_batch_fifo [OF rb reg] have f1: "fifo_rel (r1 = None) s s1"
          by simp
        show ?thesis
        proof (cases r1)
          case None
          with running Some rb Cons.prems have "serve_loop bs s1 = Some (res, s')"
            by simp
          from Cons.IH [OF this] f1 None show ?thesis
            by (auto intro: fifo_rel_trans)
        next
          case (Some e)
          with running \<open>sel s = Some m\<close> rb Cons.prems have "s' = s1" "res = Some e"
            by simp_all
          with f1 Some show ?thesis by simp
        qed
      qed
    qed
  qed
qed

lemma shutdown_all_frame:
  "txns (shutdown_all sh cl cs s) = txns s \<and> enq (shutdown_all sh cl cs s) = enq s \<and>
   ser_queue (shutdown_all sh cl cs s) = ser_queue s \<and>
   dev_rx (shutdown_all sh cl cs s) = dev_rx s \<and>
   eol_ser (shutdown_all sh cl cs s) = eol_ser s \<and>
   replies (shutdown_all sh cl cs s) = replies s \<and>
   serving (shutdown_all sh cl cs s) = serving s"
  by (induction cs arbitrary: s) (auto simp: Let_def split: option.splits)

lemma cleanup_frame:
  "txns (cleanup sh cl s) = txns s \<and> enq (cleanup sh cl s) = enq s \<and>
   ser_queue (cleanup sh cl s) = ser_queue s \<and> dev_rx (cleanup sh cl s) = dev_rx s \<and>
   eol_ser (cleanup sh cl s) = eol_ser s \<and> replies (cleanup sh cl s) = replies s"
  by (simp add: cleanup_def shutdown_all_frame)

lemma open_srv_logs:
  assumes "\<not> opened s" and "open_srv io s = Some (res, s')"
  shows "txns s' = txns s \<and> enq s' = enq s \<and> ser_queue s' = [] \<and> dev_rx s' = dev_rx s \<and>
         eol_ser s' = eol_ser s \<and> replies s' = replies s"
  using assms
  by (auto simp: open_srv_def Let_def dest!: sel_register_Inr
      split: list.splits option.splits sum.splits prod.splits if_splits outcome.splits)

text \<open>
  Claim C1. Whatever readiness events and signals a run of \<^verbatim>\<open>serve_forever\<close>
  handles, if it returns or raises, then the device transactions that
  \<^verbatim>\<open>process_serial\<close> started during the run (\<open>T\<close>) are, in this order, the commands
  that were queued at the start followed by the (command, client) pairs that
  \<^verbatim>\<open>process_socket\<close> appended to \<^verbatim>\<open>ser_queue\<close> during the run (\<open>E\<close>), up to the
  commands still queued at the end. The bytes written to the device during the run are
  the queries of these transactions, each command followed by the device marker, in
  this very order; and the replies handed over during the run (\<open>R\<close>) went, in this
  order, to the buffers of the clients of these transactions. If the run raised
  nothing, every query was written in full and every transaction handed over its reply;
  otherwise only the last transaction may lack its reply and an end of its query. Which
  client sent a command plays no part. A server that \<^verbatim>\<open>serve_forever\<close> has to open
  first starts with an empty queue.
\<close>

theorem fifo_order:
  assumes "serve_forever io s = Some (res, s')"
  shows "\<exists>T E k R. txns s' = txns s @ T \<and> enq s' = enq s @ E \<and>
           (if opened s then ser_queue s else []) @ E = T @ ser_queue s' \<and>
           dev_rx s' = dev_rx s @ take k (wire (eol_ser s) T) \<and>
           length (wire (eol_ser s) (butlast T)) \<le> k \<and>
           replies s' = replies s @ R \<and> map fst R = map snd (take (length R) T) \<and>
           length T \<le> Suc (length R) \<and>
           (res = None \<longrightarrow>
              dev_rx s' = dev_rx s @ wire (eol_ser s) T \<and> map fst R = map snd T)"
proof -
  let ?s0 = "s\<lparr>ser_queue := (if opened s then ser_queue s else [])\<rparr>"
  have "fifo_rel (res = None) ?s0 s'"
  proof (cases "opened s")
    case True
    with assms obtain s2 where loop: "serve_loop (batches io) (s\<lparr>serving := True\<rparr>) = Some (res, s2)"
      and s': "s' = cleanup (fin_shutdown_r io) (fin_close_r io) s2"
      by (auto simp: serve_forever_def split: option.splits)
    have "fifo_rel True ?s0 (s\<lparr>serving := True\<rparr>)"
      using True by (simp add: fifo_rel_frame)
    with serve_loop_fifo [OF loop] have "fifo_rel (res = None) ?s0 s2"
      by (blast intro: fifo_rel_trans)
    then show ?thesis
      unfolding s' by (rule fifo_rel_then_frame) (simp_all add: cleanup_frame)
  next
    case False
    show ?thesis
    proof (cases "open_srv (open_r io) s")
      case None
      with False assms show ?thesis by (simp add: serve_forever_def)
    next
      case (Some q)
      obtain r1 s1 where q: "q = (r1, s1)"
        by (cases q)
      with Some have op: "open_srv (open_r io) s = Some (r1, s1)"
        by simp
      from open_srv_logs [OF False op] have f1: "fifo_rel full ?s0 s1" for full
        using False by (simp add: fifo_rel_frame)
      show ?thesis
      proof (cases r1)
        case (Some e)
        with False op assms have "s' = s1"
          by (simp add: serve_forever_def)
        with f1 show ?thesis by simp
      next
        case None
        with False op assms obtain s2
          where loop: "serve_loop (batches io) (s1\<lparr>serving := True\<rparr>) = Some (res, s2)"
            and s': "s' = cleanup (fin_shutdown_r io) (fin_close_r io) s2"
          by (auto simp: serve_forever_def split: option.splits)
        have "fifo_rel True ?s0 (s1\<lparr>serving := True\<rparr>)"
          using f1 [of True] by (rule fifo_rel_then_frame) simp_all
        with serve_loop_fifo [OF loop] have "fifo_rel (res = None) ?s0 s2"
          by (blast intro: fifo_rel_trans)
        then show ?thesis
          unfolding s' by (rule fifo_rel_then_frame) (simp_all add: cleanup_frame)
      qed
    qed
  qed
  then obtain T E k R where *: "txns s' = txns s @ T" "enq s' = enq s @ E"
    "(if opened s then ser_queue s else []) @ E = T @ ser_queue s'"
    "dev_rx s' = dev_rx s @ take k (wire (eol_ser s) T)"
    "length (wire (eol_ser s) (butlast T)) \<le> k"
    "replies s' = replies s @ R" "map fst R = map snd (take (length R) T)"
    "length T \<le> Suc (length R)"
    and full: "res = None \<longrightarrow> length (wire (eol_ser s) T) \<le> k \<and> length R = length T"
    by (auto simp: fifo_rel_def)
  from *(4,7) full
  have "res = None \<longrightarrow> dev_rx s' = dev_rx s @ wire (eol_ser s) T \<and> map fst R = map snd T"
    by simp
  with * show ?thesis
    by blast
qed

lemma two_clients_run:
  "map_option (\<lambda>p. (fst p, txns (snd p), enq (snd p), ser_queue (snd p), dev_rx (snd p),
       replies (snd p)))
     (serve_forever two_clients_io relay_server) =
   Some (None, [(''B1'', 2), (''A1'', 1)], [(''B1'', 2), (''A1'', 1), (''A2'', 1), (''B2'', 2)],
         [(''A2'', 1), (''B2'', 2)], ''B1'' @ [CHR 0x0D] @ ''A1'' @ [CHR 0x0D],
         [(2, ''OK'' @ [CHR 0x0A]), (1, ''OK'' @ [CHR 0x0A])])"
  by (simp add: serve_forever_def two_clients_io_def open_ok_def relay_server_def new_server_def
      open_srv_def port_ok_def sel_register_def sel_unregister_def sel_modify_def reported_def
      process_socket_def accept_client_def client_read_def client_write_def recv_io_def
      bytes_split_def submit_def process_serial_def deliver_def device_io_def bytes_replace_def
      stop_def cleanup_def EVENT_READ_def EVENT_WRITE_def Let_def float_add_def)

theorem fifo_order_witness:
  "map_option (\<lambda>p. (fst p, txns (snd p), enq (snd p), ser_queue (snd p), dev_rx (snd p),
       replies (snd p)))
     (serve_forever two_clients_io relay_server) =
   Some (None, [(''B1'', 2), (''A1'', 1)], [(''B1'', 2), (''A1'', 1), (''A2'', 1), (''B2'', 2)],
         [(''A2'', 1), (''B2'', 2)], ''B1'' @ [CHR 0x0D] @ ''A1'' @ [CHR 0x0D],
         [(2, ''OK'' @ [CHR 0x0A]), (1, ''OK'' @ [CHR 0x0A])]) \<and>
   (\<exists>res s'. serve_forever two_clients_io relay_server = Some (res, s') \<and>
      enq s' = txns s' @ ser_queue s' \<and> dev_rx s' = wire [CHR 0x0D] (txns s') \<and>
      map fst (replies s') = map snd (txns s'))"
proof -
  from two_clients_run obtain res s'
    where run: "serve_forever two_clients_io relay_server = Some (res, s')"
    by (cases "serve_forever two_clients_io relay_server") auto
  with two_clients_run have res: "res = None"
    by simp
  have init: "\<not> opened relay_server" "txns relay_server = []" "enq relay_server = []"
    "dev_rx relay_server = []" "eol_ser relay_server = [CHR 0x0D]" "replies relay_server = []"
    by (simp_all add: relay_server_def new_server_def)
  from fifo_order [OF run] init res
  have "enq s' = txns s' @ ser_queue s' \<and> dev_rx s' = wire [CHR 0x0D] (txns s') \<and>
      map fst (replies s') = map snd (txns s')"
    by auto
  with run two_clients_run show ?thesis
    by (simp add: wire_def)
qed

section \<open>The end of serve\_forever\<close>

lemma shutdown_all_ok:
  "\<forall>c\<in>set cs. sh c = None \<and> cl c = None \<Longrightarrow>
     shut_socks (shutdown_all sh cl cs s) = shut_socks s \<union> set cs \<and>
     closed_socks (shutdown_all sh cl cs s) = closed_socks s \<union> set cs"
  by (induction cs arbitrary: s) (auto simp: Let_def)

text \<open>
  What the \<^verbatim>\<open>finally\<close> block always does: once the loop has ended,
  \<^verbatim>\<open>serve_forever\<close> terminates with an empty client set and the serving flag reset.
  And it does shut down and close every client when no call raises.
\<close>

lemma serve_forever_resets:
  assumes "loop_exit io s = Some sL"
  shows "\<exists>res s'. serve_forever io s = Some (res, s') \<and> clients s' = [] \<and> \<not> serving s'"
proof -
  from assms obtain s1 res
    where op: "(if \<not> opened s then open_srv (open_r io) s else Some (None, s)) = Some (None, s1)"
      and loop: "serve_loop (batches io) (s1\<lparr>serving := True\<rparr>) = Some (res, sL)"
    by (auto simp: loop_exit_def split: option.splits prod.splits)
  then have "serve_forever io s = Some (res, cleanup (fin_shutdown_r io) (fin_close_r io) sL)"
    by (simp add: serve_forever_def)
  then show ?thesis
    by (simp add: cleanup_def)
qed

lemma cleanup_all_ok:
  "\<forall>c\<in>set (clients s). sh c = None \<and> cl c = None \<Longrightarrow>
     set (clients s) \<subseteq> shut_socks (cleanup sh cl s) \<and>
     set (clients s) \<subseteq> closed_socks (cleanup sh cl s)"
  by (simp add: cleanup_def shutdown_all_ok)

text \<open>
  Claim C8 says that every socket left in the client set has been shut down and closed
  when \<^verbatim>\<open>serve_forever\<close> terminates. The \<^verbatim>\<open>finally\<close> block means to do that, but it
  runs the whole loop over the clients inside one \<^verbatim>\<open>suppress(OSError)\<close>. Here socket 1
  is the only client, the stop signal ends the loop, and \<^verbatim>\<open>shutdown\<close> raises
  \<^verbatim>\<open>ENOTCONN\<close> on it: the block is left, \<^verbatim>\<open>close\<close> is never called on the socket,
  and the set is cleared all the same.
\<close>

theorem finally_skips_close:
  "map_option clients (loop_exit (stop_io (Some 107)) one_client) = Some [1] \<and>
   map_option fst (serve_forever (stop_io (Some 107)) one_client) = Some None \<and>
   map_option (clients \<circ> snd) (serve_forever (stop_io (Some 107)) one_client) = Some [] \<and>
   map_option (shut_socks \<circ> snd) (serve_forever (stop_io (Some 107)) one_client) = Some {} \<and>
   map_option (closed_socks \<circ> snd) (serve_forever (stop_io (Some 107)) one_client) = Some {}"
  by (simp add: loop_exit_def serve_forever_def stop_io_def one_client_def opened_server_def
      relay_server_def new_server_def stop_def cleanup_def)

text \<open>
  The same exit of the block also passes over the clients that the loop has not come
  to. With the clients 1 and 2 visited in this order and \<^verbatim>\<open>shutdown\<close> raising on
  socket 1 only, socket 2 is neither shut down nor closed.
\<close>

lemma healthy_socket_left_open:
  "map_option clients (loop_exit stop_first_fails two_clients) = Some [1, 2] \<and>
   fin_shutdown_r stop_first_fails 2 = None \<and> fin_close_r stop_first_fails 2 = None \<and>
   map_option (clients \<circ> snd) (serve_forever stop_first_fails two_clients) = Some [] \<and>
   map_option (shut_socks \<circ> snd) (serve_forever stop_first_fails two_clients) = Some {} \<and>
   map_option (closed_socks \<circ> snd) (serve_forever stop_first_fails two_clients) = Some {}"
  by (simp add: loop_exit_def serve_forever_def stop_first_fails_def two_clients_def
      opened_server_def relay_server_def new_server_def stop_def cleanup_def)

end
